theory Spec2Isabelle
  imports Main
begin

section \<open>JavaScript values used by the streaming pipeline\<close>

text \<open>
  Strings are lists of 8-bit characters: the model covers text whose UTF-16 code units
  are below 256. A JavaScript string is truthy iff it is not empty; \<open>undefined\<close> and
  \<open>null\<close> are \<open>None\<close>.
\<close>

definition truthy :: "string option \<Rightarrow> bool" where
  "truthy v = (case v of None \<Rightarrow> False | Some s \<Rightarrow> s \<noteq> [])"

text \<open>The errors the pipeline throws, stores and hands to listeners.\<close>

datatype error =
    SyntaxError string
  | TypeError string
  | APIUserAbortError
  | GenericError string

section \<open>Chat chunks (types/chat.ts)\<close>

record delta_function =
  df_name :: "string option"
  df_arguments :: "string option"

text \<open>One entry of \<open>delta.tool_calls\<close>: every field may be absent in a fragment.\<close>

record tool_call_delta =
  d_index :: "nat option"
  d_id :: "string option"
  d_function :: "delta_function option"

record chunk_delta =
  content :: "string option"
  tool_calls :: "tool_call_delta list option"

record chunk_choice =
  delta :: "chunk_delta option"
  finish_reason :: "string option"

text \<open>
  A decoded chunk. \<open>choices = None\<close> stands for a payload whose \<open>choices\<close> is
  undefined, so that \<open>chunk.choices[0]\<close> throws a TypeError.
\<close>

record chunk =
  chunk_id :: string
  choices :: "chunk_choice list option"

record tool_function =
  fn_name :: string
  fn_arguments :: string

record tool_call =
  tc_id :: string
  tc_type :: string
  tc_function :: tool_function

section \<open>The event emitter (EventEmitter)\<close>

text \<open>
  A handler is a function object, compared by identity: a function of the caller
  (\<open>Fn k\<close>) or the closure \<open>onceWrapper\<close> that a call of \<open>once\<close> creates, which
  remembers its event and the handler it wraps; its number makes it distinct from the
  wrappers of other calls.
\<close>

datatype handler = Fn nat | OnceWrapper nat string handler

text \<open>What the body of a caller's function does to the emitter it is registered on.\<close>

datatype action =
    DoOn string handler
  | DoOff string handler
  | DoOnce string handler
  | DoRemoveAll "string option"

text \<open>
  \<open>events\<close> is a \<open>Map\<close> from event names to \<open>Set\<close> objects. A Set object lives in
  \<open>em_heap\<close> at its address and is the list of its entries in insertion order, a deleted
  entry being \<open>None\<close>: this is what an iteration in progress walks through.
  \<open>em_closures\<close> counts the wrappers created, \<open>em_log\<close> lists the handlers invoked by
  \<open>emit\<close>, \<open>em_console\<close> counts the \<open>console.error\<close> calls.
\<close>

record emitter =
  em_events :: "(string \<times> nat) list"
  em_heap :: "handler option list list"
  em_closures :: nat
  em_log :: "handler list"
  em_console :: nat

definition new_emitter :: emitter where
  "new_emitter = \<lparr>em_events = [], em_heap = [], em_closures = 0, em_log = [], em_console = 0\<rparr>"

definition set_size :: "handler option list \<Rightarrow> nat" where
  "set_size entries = length (filter (\<lambda>x. x \<noteq> None) entries)"

definition set_add :: "handler \<Rightarrow> handler option list \<Rightarrow> handler option list" where
  "set_add h entries = (if Some h \<in> set entries then entries else entries @ [Some h])"

definition set_delete :: "handler \<Rightarrow> handler option list \<Rightarrow> handler option list" where
  "set_delete h entries = map (\<lambda>x. if x = Some h then None else x) entries"

definition on :: "string \<Rightarrow> handler \<Rightarrow> emitter \<Rightarrow> emitter" where
  "on event h em =
     (let em1 = (case map_of (em_events em) event of
                   None \<Rightarrow> em\<lparr>em_events := em_events em @ [(event, length (em_heap em))],
                              em_heap := em_heap em @ [[]]\<rparr>
                 | Some a \<Rightarrow> em)
      in case map_of (em_events em1) event of
           None \<Rightarrow> em1
         | Some a \<Rightarrow> em1\<lparr>em_heap := (em_heap em1)[a := set_add h (em_heap em1 ! a)]\<rparr>)"

definition off :: "string \<Rightarrow> handler \<Rightarrow> emitter \<Rightarrow> emitter" where
  "off event h em =
     (case map_of (em_events em) event of
        None \<Rightarrow> em
      | Some a \<Rightarrow>
          (let em1 = em\<lparr>em_heap := (em_heap em)[a := set_delete h (em_heap em ! a)]\<rparr>
           in if set_size (em_heap em1 ! a) = 0
              then em1\<lparr>em_events := filter (\<lambda>(k, _). k \<noteq> event) (em_events em1)\<rparr>
              else em1))"

definition once :: "string \<Rightarrow> handler \<Rightarrow> emitter \<Rightarrow> emitter" where
  "once event h em =
     on event (OnceWrapper (em_closures em) event h) (em\<lparr>em_closures := em_closures em + 1\<rparr>)"

definition removeAllListeners :: "string option \<Rightarrow> emitter \<Rightarrow> emitter" where
  "removeAllListeners event em =
     (if truthy event
      then em\<lparr>em_events := filter (\<lambda>(k, _). Some k \<noteq> event) (em_events em)\<rparr>
      else em\<lparr>em_events := []\<rparr>)"

definition listenerCount :: "string \<Rightarrow> emitter \<Rightarrow> nat" where
  "listenerCount event em =
     (case map_of (em_events em) event of None \<Rightarrow> 0 | Some a \<Rightarrow> set_size (em_heap em ! a))"

fun act :: "action \<Rightarrow> emitter \<Rightarrow> emitter" where
  "act (DoOn event h) em = on event h em"
| "act (DoOff event h) em = off event h em"
| "act (DoOnce event h) em = once event h em"
| "act (DoRemoveAll event) em = removeAllListeners event em"

text \<open>
  Calling a handler with the payload. \<open>code k d\<close> is the body of the caller's function
  \<open>k\<close> for the payload \<open>d\<close>: the emitter calls it makes and whether it throws at its
  end. The result says whether the call threw.
\<close>

fun invoke :: "(nat \<Rightarrow> 'd \<Rightarrow> action list \<times> bool) \<Rightarrow> handler \<Rightarrow> 'd \<Rightarrow> emitter \<Rightarrow> emitter \<times> bool" where
  "invoke code (Fn k) d em = (foldl (\<lambda>em a. act a em) em (fst (code k d)), snd (code k d))"
| "invoke code (OnceWrapper n event h) d em = invoke code h d (off event (OnceWrapper n event h) em)"

text \<open>
  \<open>for (const handler of handlers)\<close> over the Set object at address \<open>a\<close>, from entry
  \<open>i\<close> on: the iteration sees deletions and additions made by the handlers it calls,
  and it is endless when they keep adding.
\<close>

partial_function (option) emit_loop ::
  "(nat \<Rightarrow> 'd \<Rightarrow> action list \<times> bool) \<Rightarrow> 'd \<Rightarrow> nat \<Rightarrow> nat \<Rightarrow> emitter \<Rightarrow> emitter option" where
  "emit_loop code d a i em =
     (if i < length (em_heap em ! a)
      then (case em_heap em ! a ! i of
              None \<Rightarrow> emit_loop code d a (i + 1) em
            | Some h \<Rightarrow>
                emit_loop code d a (i + 1)
                  (if snd (invoke code h d (em\<lparr>em_log := em_log em @ [h]\<rparr>))
                   then (fst (invoke code h d (em\<lparr>em_log := em_log em @ [h]\<rparr>)))
                          \<lparr>em_console := em_console (fst (invoke code h d (em\<lparr>em_log := em_log em @ [h]\<rparr>))) + 1\<rparr>
                   else fst (invoke code h d (em\<lparr>em_log := em_log em @ [h]\<rparr>))))
      else Some em)"

declare emit_loop.simps [code]

definition em_emit ::
  "(nat \<Rightarrow> 'd \<Rightarrow> action list \<times> bool) \<Rightarrow> string \<Rightarrow> 'd \<Rightarrow> emitter \<Rightarrow> (bool \<times> emitter) option" where
  "em_emit code event d em =
     (case map_of (em_events em) event of
        None \<Rightarrow> Some (False, em)
      | Some a \<Rightarrow>
          if set_size (em_heap em ! a) = 0 then Some (False, em)
          else map_option (Pair True) (emit_loop code d a 0 em))"


section \<open>Events, promises and iterators of the chat runner\<close>

text \<open>The events of \<open>StreamEventMap\<close> that the chat runner emits, with their payloads.\<close>

datatype event =
    EvChunk chunk
  | EvContentDelta string string
  | EvContentDone string
  | EvToolDelta nat tool_call_delta tool_call
  | EvToolDone nat tool_call
  | EvError error
  | EvEnd
  | EvAbort

datatype 'a promise = Pending | Resolved 'a | Rejected error

text \<open>
  The closure state of one \<open>[Symbol.asyncIterator]()\<close> call: the buffered chunks, the
  read position, and the two flags its listeners set.
\<close>

record iter =
  it_chunks :: "chunk list"
  it_chunkIndex :: nat
  it_isComplete :: bool
  it_error :: "error option"

datatype next_result = Blocked | Throws error | Yields chunk | Finished

section \<open>The chat runner (ChatCompletionStreamingRunner)\<close>

text \<open>
  \<open>toolCallsSnapshot\<close> is a JavaScript object with integer keys: it enumerates its keys
  in ascending numeric order (tool-call indices are taken to be array indices, below
  \<open>2^32 - 1\<close>), so it is kept as an association list sorted by key.
  \<open>u_finalToolCalls\<close> is the array \<open>Object.values\<close> returned: it holds references to
  the snapshot objects, here their keys, read through the current snapshot.
  \<open>aborted\<close> is \<open>abortController.signal.aborted\<close>; \<open>running\<close> says that
  \<open>processStream\<close> has not returned yet; \<open>emitted\<close> lists the events emitted so far.
  \<open>dones\<close>, \<open>contents\<close> and \<open>iterators\<close> hold the promises returned by \<open>done()\<close> and
  \<open>finalContent()\<close> and the iterators handed out, in call order.
\<close>

record runner =
  contentSnapshot :: string
  isComplete :: bool
  u_finalContent :: "string option"
  toolCallsSnapshot :: "(nat \<times> tool_call) list"
  u_finalToolCalls :: "nat list option"
  aborted :: bool
  running :: bool
  emitted :: "event list"
  dones :: "unit promise list"
  contents :: "string promise list"
  iterators :: "iter list"

definition new_runner :: runner where
  "new_runner = \<lparr>contentSnapshot = [], isComplete = False, u_finalContent = None,
     toolCallsSnapshot = [], u_finalToolCalls = None, aborted = False, running = True,
     emitted = [], dones = [], contents = [], iterators = []\<rparr>"

text \<open>\<open>obj[k] = v\<close> on an object with integer keys.\<close>

fun obj_set :: "nat \<Rightarrow> 'v \<Rightarrow> (nat \<times> 'v) list \<Rightarrow> (nat \<times> 'v) list" where
  "obj_set k v [] = [(k, v)]"
| "obj_set k v ((k', v') # rest) =
     (if k < k' then (k, v) # (k', v') # rest
      else if k = k' then (k, v) # rest
      else (k', v') # obj_set k v rest)"

subsection \<open>Listeners registered by the runner itself\<close>

text \<open>
  \<open>done()\<close> registers one-shot listeners for \<open>end\<close>, \<open>error\<close> and \<open>abort\<close>; the first
  of these events settles the promise, and a settled promise stays as it is.
\<close>

fun settle_done :: "event \<Rightarrow> unit promise \<Rightarrow> unit promise" where
  "settle_done EvEnd Pending = Resolved ()"
| "settle_done (EvError e) Pending = Rejected e"
| "settle_done EvAbort Pending = Rejected APIUserAbortError"
| "settle_done ev p = p"

text \<open>
  \<open>finalContent()\<close> that found \<open>_finalContent\<close> null awaits \<open>done()\<close> and then returns
  \<open>this._finalContent || ""\<close>.
\<close>

fun settle_content :: "string option \<Rightarrow> event \<Rightarrow> string promise \<Rightarrow> string promise" where
  "settle_content fc EvEnd Pending = Resolved (case fc of None \<Rightarrow> [] | Some c \<Rightarrow> c)"
| "settle_content fc (EvError e) Pending = Rejected e"
| "settle_content fc EvAbort Pending = Rejected APIUserAbortError"
| "settle_content fc ev p = p"

text \<open>The four listeners of an iterator.\<close>

fun iter_on :: "event \<Rightarrow> iter \<Rightarrow> iter" where
  "iter_on (EvChunk c) it = it\<lparr>it_chunks := it_chunks it @ [c]\<rparr>"
| "iter_on EvEnd it = it\<lparr>it_isComplete := True\<rparr>"
| "iter_on (EvError e) it = it\<lparr>it_error := Some e, it_isComplete := True\<rparr>"
| "iter_on EvAbort it = it\<lparr>it_error := Some APIUserAbortError, it_isComplete := True\<rparr>"
| "iter_on ev it = it"

text \<open>
  \<open>next()\<close>: \<open>Blocked\<close> is the polling loop finding nothing to return yet; the call
  then looks again at a later state.
\<close>

definition it_next :: "iter \<Rightarrow> next_result \<times> iter" where
  "it_next it =
     (if it_chunkIndex it \<ge> length (it_chunks it) \<and> \<not> it_isComplete it then (Blocked, it)
      else case it_error it of
        Some e \<Rightarrow> (Throws e, it)
      | None \<Rightarrow>
          if it_chunkIndex it < length (it_chunks it)
          then (Yields (it_chunks it ! it_chunkIndex it), it\<lparr>it_chunkIndex := it_chunkIndex it + 1\<rparr>)
          else (Finished, it))"

subsection \<open>emit and abort\<close>

text \<open>The events that the listeners of \<open>done()\<close> wait for.\<close>

fun terminal :: "event \<Rightarrow> bool" where
  "terminal EvEnd = True"
| "terminal (EvError e) = True"
| "terminal EvAbort = True"
| "terminal ev = False"

text \<open>
  The runner is an event emitter. \<open>inform\<close> is what the runner's own listeners do with
  an event: those of the pending \<open>done()\<close> and \<open>finalContent()\<close> promises and of the
  iterators. \<open>notify\<close> is an emission that no handler of the caller reacts to: the event
  is recorded and the listeners run. \<open>abort()\<close> signals the token and emits \<open>abort\<close>.
\<close>

definition inform :: "event \<Rightarrow> runner \<Rightarrow> runner" where
  "inform ev r = r\<lparr>dones := map (settle_done ev) (dones r),
     contents := map (settle_content (u_finalContent r) ev) (contents r),
     iterators := map (iter_on ev) (iterators r)\<rparr>"

definition notify :: "event \<Rightarrow> runner \<Rightarrow> runner" where
  "notify ev r = r\<lparr>emitted := emitted r @ [ev],
     dones := map (settle_done ev) (dones r),
     contents := map (settle_content (u_finalContent r) ev) (contents r),
     iterators := map (iter_on ev) (iterators r)\<rparr>"

definition abort :: "runner \<Rightarrow> runner" where
  "abort r = notify EvAbort (r\<lparr>aborted := True\<rparr>)"

text \<open>
  \<open>emit\<close> runs the handlers of an event in the order of their registration. \<open>react ev\<close>
  says that a handler of the caller for \<open>ev\<close>, registered on the runner before the
  listeners of any \<open>done()\<close>, \<open>finalContent()\<close> or iterator, calls \<open>abort()\<close>. That call
  emits \<open>abort\<close> inside the emission of \<open>ev\<close>: the runner's listeners see \<open>abort\<close>
  first and \<open>ev\<close> after it. For the chunk, content and tool-call events the order makes
  no difference to them. A handler of \<open>abort\<close> that calls \<open>abort()\<close> would call itself
  without end and is left out, and the caller is taken not to remove the runner's own
  listeners.
\<close>

definition emit :: "(event \<Rightarrow> bool) \<Rightarrow> event \<Rightarrow> runner \<Rightarrow> runner" where
  "emit react ev r =
     (if react ev \<and> ev \<noteq> EvAbort
      then inform ev (abort (r\<lparr>emitted := emitted r @ [ev]\<rparr>))
      else notify ev r)"

subsection \<open>handleToolCallsDelta\<close>

definition fold_tool_call :: "tool_call_delta \<Rightarrow> tool_call option \<Rightarrow> tool_call" where
  "fold_tool_call d existing =
     (let snapshot0 = (case existing of
            None \<Rightarrow> \<lparr>tc_id = (case d_id d of None \<Rightarrow> [] | Some i \<Rightarrow> i),
                      tc_type = ''function'',
                      tc_function = \<lparr>fn_name = [], fn_arguments = []\<rparr>\<rparr>
          | Some s \<Rightarrow> s);
          snapshot1 = (case d_id d of
            None \<Rightarrow> snapshot0
          | Some i \<Rightarrow> if i \<noteq> [] then snapshot0\<lparr>tc_id := i\<rparr> else snapshot0)
      in case d_function d of
           None \<Rightarrow> snapshot1
         | Some f \<Rightarrow>
             (let fn1 = (case df_name f of
                    None \<Rightarrow> tc_function snapshot1
                  | Some n \<Rightarrow> if n \<noteq> [] then (tc_function snapshot1)\<lparr>fn_name := n\<rparr>
                              else tc_function snapshot1);
                  fn2 = (case df_arguments f of
                    None \<Rightarrow> fn1
                  | Some a \<Rightarrow> if a \<noteq> [] then fn1\<lparr>fn_arguments := fn_arguments fn1 @ a\<rparr>
                              else fn1)
              in snapshot1\<lparr>tc_function := fn2\<rparr>))"

fun handleToolCallsDelta :: "(event \<Rightarrow> bool) \<Rightarrow> tool_call_delta list \<Rightarrow> runner \<Rightarrow> runner" where
  "handleToolCallsDelta react [] r = r"
| "handleToolCallsDelta react (toolCallDelta # rest) r =
     (case d_index toolCallDelta of
        None \<Rightarrow> handleToolCallsDelta react rest r
      | Some index \<Rightarrow>
          (let snapshot = fold_tool_call toolCallDelta (map_of (toolCallsSnapshot r) index);
               r1 = r\<lparr>toolCallsSnapshot := obj_set index snapshot (toolCallsSnapshot r)\<rparr>
           in handleToolCallsDelta react rest
                (emit react (EvToolDelta index toolCallDelta snapshot) r1)))"

subsection \<open>processStream\<close>

text \<open>
  The loop \<open>for (let i = 0; i < Object.keys(this.toolCallsSnapshot).length; i++)\<close> of the
  finish branch.
\<close>

function tool_done_loop :: "(event \<Rightarrow> bool) \<Rightarrow> nat \<Rightarrow> runner \<Rightarrow> runner" where
  "tool_done_loop react i r =
     (if i < length (toolCallsSnapshot r)
      then tool_done_loop react (i + 1)
             (case map_of (toolCallsSnapshot r) i of
                None \<Rightarrow> r
              | Some tc \<Rightarrow> emit react (EvToolDone i tc) r)
      else r)"
  by pat_completeness auto
termination
  by (relation "measure (\<lambda>(react, i, r). length (toolCallsSnapshot r) - i)")
     (auto simp: emit_def inform_def notify_def abort_def split: option.splits)

text \<open>What \<open>JSON.parse(event.data)\<close> gave for a frame: it threw, or it returned a chunk.\<close>

datatype payload = Malformed string | Decoded chunk

definition on_content :: "(event \<Rightarrow> bool) \<Rightarrow> chunk_delta option \<Rightarrow> runner \<Rightarrow> runner" where
  "on_content react dl r =
     (case dl of
        None \<Rightarrow> r
      | Some d \<Rightarrow>
          (case content d of
             None \<Rightarrow> r
           | Some c \<Rightarrow>
               if c \<noteq> []
               then (let r1 = r\<lparr>contentSnapshot := contentSnapshot r @ c\<rparr>
                     in emit react (EvContentDelta c (contentSnapshot r1)) r1)
               else r))"

definition on_tool_calls :: "(event \<Rightarrow> bool) \<Rightarrow> chunk_delta option \<Rightarrow> runner \<Rightarrow> runner" where
  "on_tool_calls react dl r =
     (case dl of
        None \<Rightarrow> r
      | Some d \<Rightarrow>
          (case tool_calls d of
             None \<Rightarrow> r
           | Some tcs \<Rightarrow> handleToolCallsDelta react tcs r))"

definition on_finish :: "(event \<Rightarrow> bool) \<Rightarrow> string option \<Rightarrow> runner \<Rightarrow> runner" where
  "on_finish react finishReason r =
     (if truthy finishReason
      then (let r1 = r\<lparr>u_finalContent := Some (contentSnapshot r),
                        u_finalToolCalls := Some (map fst (toolCallsSnapshot r)),
                        isComplete := True\<rparr>;
                r2 = (if contentSnapshot r1 \<noteq> []
                      then emit react (EvContentDone (contentSnapshot r1)) r1 else r1)
            in tool_done_loop react 0 r2)
      else r)"

text \<open>The body of the inner \<open>try\<close>, with its \<open>catch\<close>.\<close>

definition process_frame :: "(event \<Rightarrow> bool) \<Rightarrow> payload \<Rightarrow> runner \<Rightarrow> runner" where
  "process_frame react p r =
     (case p of
        Malformed msg \<Rightarrow> emit react (EvError (SyntaxError msg)) r
      | Decoded c \<Rightarrow>
          (let r1 = emit react (EvChunk c) r
           in case choices c of
                None \<Rightarrow> emit react (EvError (TypeError ''choices'')) r1
              | Some chs \<Rightarrow>
                  (let choice0 = (case chs of [] \<Rightarrow> None | ch # _ \<Rightarrow> Some ch);
                       dl = (case choice0 of None \<Rightarrow> None | Some ch \<Rightarrow> delta ch);
                       r2 = on_content react dl r1;
                       r3 = on_tool_calls react dl r2;
                       finishReason = (case choice0 of None \<Rightarrow> None | Some ch \<Rightarrow> finish_reason ch)
                   in on_finish react finishReason r3)))"

text \<open>
  What happens to a runner, one step at a time: the frame source yields a frame, is
  exhausted or fails, or the caller calls a public method between two frames.
\<close>

datatype op =
    Frame payload
  | SourceEnd
  | SourceError error
  | CallAbort
  | CallDone
  | CallFinalContent
  | CallIterator
  | CallNext nat

definition done_call :: "runner \<Rightarrow> runner" where
  "done_call r = r\<lparr>dones := dones r @ [if isComplete r then Resolved () else Pending]\<rparr>"

definition finalContent :: "runner \<Rightarrow> runner" where
  "finalContent r = r\<lparr>contents := contents r @
     [case u_finalContent r of
        Some c \<Rightarrow> Resolved c
      | None \<Rightarrow> if isComplete r then Resolved [] else Pending]\<rparr>"

definition asyncIterator :: "runner \<Rightarrow> runner" where
  "asyncIterator r = r\<lparr>iterators := iterators r @
     [\<lparr>it_chunks = [], it_chunkIndex = 0, it_isComplete = False, it_error = None\<rparr>]\<rparr>"

text \<open>What \<open>finalToolCalls()\<close> returns once \<open>_finalToolCalls\<close> is set.\<close>

definition finalToolCalls :: "runner \<Rightarrow> tool_call list option" where
  "finalToolCalls r =
     (case u_finalToolCalls r of
        None \<Rightarrow> None
      | Some refs \<Rightarrow> Some (List.map_filter (map_of (toolCallsSnapshot r)) refs))"

definition step :: "(event \<Rightarrow> bool) \<Rightarrow> op \<Rightarrow> runner \<Rightarrow> runner" where
  "step react x r =
     (case x of
        Frame p \<Rightarrow>
          if \<not> running r then r
          else if aborted r then (emit react EvAbort r)\<lparr>running := False\<rparr>
          else process_frame react p r
      | SourceEnd \<Rightarrow>
          if \<not> running r then r
          else (let r1 = (if \<not> isComplete r
                          then emit react (EvContentDone (contentSnapshot r))
                                 (r\<lparr>u_finalContent := Some (contentSnapshot r), isComplete := True\<rparr>)
                          else r)
                in (emit react EvEnd r1)\<lparr>running := False\<rparr>)
      | SourceError e \<Rightarrow>
          if \<not> running r then r
          else (if aborted r then emit react EvAbort r else emit react (EvError e) r)
                 \<lparr>running := False\<rparr>
      | CallAbort \<Rightarrow> abort r
      | CallDone \<Rightarrow> done_call r
      | CallFinalContent \<Rightarrow> finalContent r
      | CallIterator \<Rightarrow> asyncIterator r
      | CallNext k \<Rightarrow>
          if k < length (iterators r)
          then r\<lparr>iterators := (iterators r)[k := snd (it_next (iterators r ! k))]\<rparr>
          else r)"

definition run :: "(event \<Rightarrow> bool) \<Rightarrow> op list \<Rightarrow> runner \<Rightarrow> runner" where
  "run react ops r = foldl (\<lambda>r x. step react x r) r ops"

section \<open>The completion runner (CompletionStreamingRunner)\<close>

record completion_choice =
  c_text :: "string option"
  c_finish_reason :: "string option"

record completion_chunk =
  c_chunk_id :: string
  c_choices :: "completion_choice list option"

datatype c_event =
    CEvChunk completion_chunk
  | CEvTextDelta string string
  | CEvTextDone string
  | CEvError error
  | CEvEnd
  | CEvAbort

datatype c_payload = CMalformed string | CDecoded completion_chunk

record c_runner =
  textSnapshot :: string
  c_isComplete :: bool
  u_finalText :: "string option"
  c_aborted :: bool
  c_running :: bool
  c_emitted :: "c_event list"
  c_dones :: "unit promise list"

definition new_c_runner :: c_runner where
  "new_c_runner = \<lparr>textSnapshot = [], c_isComplete = False, u_finalText = None,
     c_aborted = False, c_running = True, c_emitted = [], c_dones = []\<rparr>"

fun c_settle_done :: "c_event \<Rightarrow> unit promise \<Rightarrow> unit promise" where
  "c_settle_done CEvEnd Pending = Resolved ()"
| "c_settle_done (CEvError e) Pending = Rejected e"
| "c_settle_done CEvAbort Pending = Rejected APIUserAbortError"
| "c_settle_done ev p = p"

fun c_terminal :: "c_event \<Rightarrow> bool" where
  "c_terminal CEvEnd = True"
| "c_terminal (CEvError e) = True"
| "c_terminal CEvAbort = True"
| "c_terminal ev = False"

definition c_inform :: "c_event \<Rightarrow> c_runner \<Rightarrow> c_runner" where
  "c_inform ev r = r\<lparr>c_dones := map (c_settle_done ev) (c_dones r)\<rparr>"

definition c_notify :: "c_event \<Rightarrow> c_runner \<Rightarrow> c_runner" where
  "c_notify ev r = r\<lparr>c_emitted := c_emitted r @ [ev],
     c_dones := map (c_settle_done ev) (c_dones r)\<rparr>"

definition c_abort :: "c_runner \<Rightarrow> c_runner" where
  "c_abort r = c_notify CEvAbort (r\<lparr>c_aborted := True\<rparr>)"

text \<open>As for the chat runner: a reacting handler of the caller runs before the listeners
  of \<open>done()\<close>, and a handler of \<open>abort\<close> that calls \<open>abort()\<close> is left out.\<close>

definition c_emit :: "(c_event \<Rightarrow> bool) \<Rightarrow> c_event \<Rightarrow> c_runner \<Rightarrow> c_runner" where
  "c_emit react ev r =
     (if react ev \<and> ev \<noteq> CEvAbort
      then c_inform ev (c_abort (r\<lparr>c_emitted := c_emitted r @ [ev]\<rparr>))
      else c_notify ev r)"

definition c_on_text :: "(c_event \<Rightarrow> bool) \<Rightarrow> string option \<Rightarrow> c_runner \<Rightarrow> c_runner" where
  "c_on_text react tx r =
     (case tx of
        None \<Rightarrow> r
      | Some t \<Rightarrow>
          if t \<noteq> []
          then (let r1 = r\<lparr>textSnapshot := textSnapshot r @ t\<rparr>
                in c_emit react (CEvTextDelta t (textSnapshot r1)) r1)
          else r)"

definition c_on_finish :: "(c_event \<Rightarrow> bool) \<Rightarrow> string option \<Rightarrow> c_runner \<Rightarrow> c_runner" where
  "c_on_finish react finishReason r =
     (if truthy finishReason
      then c_emit react (CEvTextDone (textSnapshot r))
             (r\<lparr>u_finalText := Some (textSnapshot r), c_isComplete := True\<rparr>)
      else r)"

definition c_process_frame :: "(c_event \<Rightarrow> bool) \<Rightarrow> c_payload \<Rightarrow> c_runner \<Rightarrow> c_runner" where
  "c_process_frame react p r =
     (case p of
        CMalformed msg \<Rightarrow> c_emit react (CEvError (SyntaxError msg)) r
      | CDecoded c \<Rightarrow>
          (let r1 = c_emit react (CEvChunk c) r
           in case c_choices c of
                None \<Rightarrow> c_emit react (CEvError (TypeError ''choices'')) r1
              | Some chs \<Rightarrow>
                  (let choice = (case chs of [] \<Rightarrow> None | ch # _ \<Rightarrow> Some ch);
                       r2 = c_on_text react (case choice of None \<Rightarrow> None | Some ch \<Rightarrow> c_text ch) r1
                   in c_on_finish react
                        (case choice of None \<Rightarrow> None | Some ch \<Rightarrow> c_finish_reason ch) r2)))"

datatype c_op =
    CFrame c_payload
  | CSourceEnd
  | CSourceError error
  | CCallAbort
  | CCallDone

definition c_done_call :: "c_runner \<Rightarrow> c_runner" where
  "c_done_call r = r\<lparr>c_dones := c_dones r @ [if c_isComplete r then Resolved () else Pending]\<rparr>"

definition c_step :: "(c_event \<Rightarrow> bool) \<Rightarrow> c_op \<Rightarrow> c_runner \<Rightarrow> c_runner" where
  "c_step react x r =
     (case x of
        CFrame p \<Rightarrow>
          if \<not> c_running r then r
          else if c_aborted r then (c_emit react CEvAbort r)\<lparr>c_running := False\<rparr>
          else c_process_frame react p r
      | CSourceEnd \<Rightarrow>
          if \<not> c_running r then r
          else (let r1 = (if \<not> c_isComplete r
                          then c_emit react (CEvTextDone (textSnapshot r))
                                 (r\<lparr>u_finalText := Some (textSnapshot r), c_isComplete := True\<rparr>)
                          else r)
                in (c_emit react CEvEnd r1)\<lparr>c_running := False\<rparr>)
      | CSourceError e \<Rightarrow>
          if \<not> c_running r then r
          else (if c_aborted r then c_emit react CEvAbort r else c_emit react (CEvError e) r)
                 \<lparr>c_running := False\<rparr>
      | CCallAbort \<Rightarrow> c_abort r
      | CCallDone \<Rightarrow> c_done_call r)"

definition c_run :: "(c_event \<Rightarrow> bool) \<Rightarrow> c_op list \<Rightarrow> c_runner \<Rightarrow> c_runner" where
  "c_run react ops r = foldl (\<lambda>r x. c_step react x r) r ops"


section \<open>The SSE frame parser (SSEParser)\<close>

text \<open>\<open>parseInt\<close> returns a number or NaN.\<close>

datatype jsnum = NaN | Num int

record StreamEvent =
  se_data :: string
  se_event :: "string option"
  se_id :: "string option"
  se_retry :: "jsnum option"

text \<open>\<open>Partial<StreamEvent>\<close>: the frame in progress, every field possibly undefined.\<close>

record partial_event =
  pe_data :: "string option"
  pe_event :: "string option"
  pe_id :: "string option"
  pe_retry :: "jsnum option"

definition empty_event :: partial_event where
  "empty_event = \<lparr>pe_data = None, pe_event = None, pe_id = None, pe_retry = None\<rparr>"

definition newline :: char where
  "newline = CHR 0x0A"

text \<open>\<open>s.split(c)\<close> for a one-character separator: never an empty list.\<close>

fun split_on :: "char \<Rightarrow> string \<Rightarrow> string list" where
  "split_on c [] = [[]]"
| "split_on c (x # xs) =
     (if x = c then [] # split_on c xs
      else (case split_on c xs of [] \<Rightarrow> [[x]] | l # ls \<Rightarrow> (x # l) # ls))"

text \<open>The white space and line terminators that \<open>trim\<close> removes, among 8-bit characters.\<close>

definition is_space :: "char \<Rightarrow> bool" where
  "is_space c = (c \<in> {CHR 0x09, CHR 0x0A, CHR 0x0B, CHR 0x0C, CHR 0x0D, CHR 0x20, CHR 0xA0})"

definition trim :: "string \<Rightarrow> string" where
  "trim s = rev (dropWhile is_space (rev (dropWhile is_space s)))"

definition is_digit :: "char \<Rightarrow> bool" where
  "is_digit c = (48 \<le> (of_char c :: nat) \<and> (of_char c :: nat) \<le> 57)"

text \<open>
  \<open>parseInt(s, 10)\<close>: leading white space, an optional sign, then the longest run of
  decimal digits; NaN when there is no digit. (Numbers are taken as exact integers.)
\<close>

definition parseInt :: "string \<Rightarrow> jsnum" where
  "parseInt s =
     (let s1 = dropWhile is_space s;
          neg = (case s1 of [] \<Rightarrow> False | c # _ \<Rightarrow> c = CHR ''-'');
          s2 = (case s1 of [] \<Rightarrow> [] | c # rest \<Rightarrow> if c = CHR ''-'' \<or> c = CHR ''+'' then rest else s1);
          ds = takeWhile is_digit s2;
          n = foldl (\<lambda>n c. 10 * n + (int (of_char c) - 48)) 0 ds
      in if ds = [] then NaN else Num (if neg then - n else n))"

text \<open>The body of the \<open>switch (field)\<close>.\<close>

definition set_field :: "string \<Rightarrow> string \<Rightarrow> partial_event \<Rightarrow> partial_event" where
  "set_field field v cur =
     (if field = ''data'' then cur\<lparr>pe_data := Some v\<rparr>
      else if field = ''event'' then cur\<lparr>pe_event := Some v\<rparr>
      else if field = ''id'' then cur\<lparr>pe_id := Some v\<rparr>
      else if field = ''retry'' then cur\<lparr>pe_retry := Some (parseInt v)\<rparr>
      else cur)"

text \<open>
  The loop \<open>for (const line of lines)\<close>, with \<open>currentEvent\<close> as the accumulator; it
  returns the events pushed.
\<close>

fun parse_lines :: "string list \<Rightarrow> partial_event \<Rightarrow> StreamEvent list" where
  "parse_lines [] currentEvent = []"
| "parse_lines (line # rest) currentEvent =
     (if line = []
      then (case pe_data currentEvent of
              None \<Rightarrow> []
            | Some d \<Rightarrow> [\<lparr>se_data = d, se_event = pe_event currentEvent,
                           se_id = pe_id currentEvent, se_retry = pe_retry currentEvent\<rparr>])
           @ parse_lines rest empty_event
      else if CHR '':'' \<notin> set line then parse_lines rest currentEvent
      else (let field = trim (takeWhile (\<lambda>c. c \<noteq> CHR '':'') line);
                v = trim (drop 1 (dropWhile (\<lambda>c. c \<noteq> CHR '':'') line))
            in parse_lines rest (set_field field v currentEvent)))"

text \<open>
  \<open>parse(chunk)\<close> on a parser whose \<open>buffer\<close> field is the second argument: the events
  returned and the new buffer. \<open>currentEvent\<close> is a local of the call: every call starts
  it empty.
\<close>

definition parse :: "string \<Rightarrow> string \<Rightarrow> StreamEvent list \<times> string" where
  "parse chunk buffer =
     (let lines = split_on newline (buffer @ chunk)
      in (parse_lines (butlast lines) empty_event, last lines))"

text \<open>Feeding chunks one by one to one parser, from a given buffer: all events, in order.\<close>

fun parse_chunks :: "string list \<Rightarrow> string \<Rightarrow> StreamEvent list" where
  "parse_chunks [] buffer = []"
| "parse_chunks (chunk # rest) buffer =
     (case parse chunk buffer of (events, buffer') \<Rightarrow> events @ parse_chunks rest buffer')"

text \<open>
  \<open>currentEvent\<close> at the end of the loop over the lines: the fields of a frame that has
  begun and is not yet ended by a blank line.
\<close>

fun pending_event :: "string list \<Rightarrow> partial_event \<Rightarrow> partial_event" where
  "pending_event [] currentEvent = currentEvent"
| "pending_event (line # rest) currentEvent =
     (if line = [] then pending_event rest empty_event
      else if CHR '':'' \<notin> set line then pending_event rest currentEvent
      else pending_event rest
             (set_field (trim (takeWhile (\<lambda>c. c \<noteq> CHR '':'') line))
                (trim (drop 1 (dropWhile (\<lambda>c. c \<noteq> CHR '':'') line))) currentEvent))"

section \<open>The stream processor (StreamProcessor)\<close>

text \<open>What \<open>reader.read()\<close> gives: a chunk, already decoded to text, or a failure.\<close>

datatype read = Data string | ReadFails error

datatype gen_state = Active | Completed

text \<open>
  A started \<open>processStream\<close> generator with the processor it belongs to: the parser's
  buffer, the token if \<open>setAbortController\<close> was called (\<open>Some b\<close>, \<open>b\<close> its
  \<open>signal.aborted\<close>), what the reader is still to return (then it is done), the events of
  the current chunk not yet yielded, whether the reader lock is held, and the number of
  \<open>read()\<close> calls made.
\<close>

record stream =
  sp_buffer :: string
  sp_abortController :: "bool option"
  sp_source :: "read list"
  sp_pending :: "StreamEvent list"
  sp_locked :: bool
  sp_state :: gen_state
  sp_reads :: nat

datatype pull = Yield StreamEvent | Done | Thrown error

text \<open>
  \<open>processStream(response)\<close> up to the \<open>try\<close>: a response without a body throws;
  otherwise the reader is acquired.
\<close>

definition processStream :: "bool option \<Rightarrow> read list option \<Rightarrow> error + stream" where
  "processStream controller body =
     (case body of
        None \<Rightarrow> Inl (GenericError ''Response body is null'')
      | Some src \<Rightarrow> Inr \<lparr>sp_buffer = [], sp_abortController = controller, sp_source = src,
                         sp_pending = [], sp_locked = True, sp_state = Active, sp_reads = 0\<rparr>)"

text \<open>The \<open>finally\<close> block: \<open>reader.releaseLock()\<close> and \<open>parser.reset()\<close>.\<close>

definition finally_block :: "stream \<Rightarrow> stream" where
  "finally_block s = s\<lparr>sp_locked := False, sp_buffer := [], sp_pending := [], sp_state := Completed\<rparr>"

text \<open>One \<open>next()\<close> of the generator: it runs the read loop up to the next \<open>yield\<close>.\<close>

function sp_next :: "stream \<Rightarrow> pull \<times> stream" where
  "sp_next s =
     (if sp_state s = Completed then (Done, s)
      else case sp_pending s of
        ev # rest \<Rightarrow>
          if se_data ev = ''[DONE]'' then (Done, finally_block s)
          else (Yield ev, s\<lparr>sp_pending := rest\<rparr>)
      | [] \<Rightarrow>
          (case sp_source s of
             [] \<Rightarrow> (Done, finally_block (s\<lparr>sp_reads := sp_reads s + 1\<rparr>))
           | ReadFails e # src \<Rightarrow> (Thrown e, finally_block (s\<lparr>sp_source := src, sp_reads := sp_reads s + 1\<rparr>))
           | Data chunk # src \<Rightarrow>
               sp_next (s\<lparr>sp_source := src, sp_reads := sp_reads s + 1,
                          sp_buffer := snd (parse chunk (sp_buffer s)),
                          sp_pending := fst (parse chunk (sp_buffer s))\<rparr>)))"
  by pat_completeness auto
termination
  by (relation "measure (\<lambda>s. length (sp_source s))") auto

text \<open>The consumer stops pulling (\<open>return()\<close> on the suspended generator).\<close>

definition sp_return :: "stream \<Rightarrow> stream" where
  "sp_return s = (if sp_state s = Completed then s else finally_block s)"

text \<open>\<open>abort()\<close> and \<open>setAbortController\<close>.\<close>

definition sp_abort :: "stream \<Rightarrow> stream" where
  "sp_abort s =
     (case sp_abortController s of
        None \<Rightarrow> s
      | Some b \<Rightarrow> s\<lparr>sp_abortController := Some True\<rparr>)"

definition setAbortController :: "bool \<Rightarrow> stream \<Rightarrow> stream" where
  "setAbortController signal s = s\<lparr>sp_abortController := Some signal\<rparr>"


section \<open>Observations used to state the properties\<close>

text \<open>The \<open>function.arguments\<close> text held at an index of the Tool Call Snapshot.\<close>

definition arguments_at :: "nat \<Rightarrow> runner \<Rightarrow> string option" where
  "arguments_at i r =
     map_option (\<lambda>tc. fn_arguments (tc_function tc)) (map_of (toolCallsSnapshot r) i)"

text \<open>The arguments text a tool-call delta carries (empty when it carries none).\<close>

definition fragment :: "tool_call_delta \<Rightarrow> string" where
  "fragment d =
     (case d_function d of
        None \<Rightarrow> []
      | Some f \<Rightarrow> (case df_arguments f of None \<Rightarrow> [] | Some a \<Rightarrow> a))"

text \<open>A delta that carries an arguments text at an index and nothing else.\<close>

definition whole_delta :: "nat \<Rightarrow> string \<Rightarrow> tool_call_delta" where
  "whole_delta i a =
     \<lparr>d_index = Some i, d_id = None,
      d_function = Some \<lparr>df_name = None, df_arguments = Some a\<rparr>\<rparr>"

text \<open>One iteration of \<open>handleToolCallsDelta\<close> for a delta whose index is \<open>i\<close>.\<close>

definition deliver :: "(event \<Rightarrow> bool) \<Rightarrow> nat \<Rightarrow> tool_call_delta \<Rightarrow> runner \<Rightarrow> runner" where
  "deliver react i d r =
     emit react (EvToolDelta i d (fold_tool_call d (map_of (toolCallsSnapshot r) i)))
       (r\<lparr>toolCallsSnapshot :=
            obj_set i (fold_tool_call d (map_of (toolCallsSnapshot r) i)) (toolCallsSnapshot r)\<rparr>)"

text \<open>No handler of the caller calls \<open>abort()\<close>.\<close>

definition quiet :: "event \<Rightarrow> bool" where
  "quiet ev = False"


text \<open>\<open>choices[0]\<close> of a frame's payload, when the payload decodes and has one.\<close>

definition choice0 :: "payload \<Rightarrow> chunk_choice option" where
  "choice0 p =
     (case p of
        Malformed msg \<Rightarrow> None
      | Decoded c \<Rightarrow> (case choices c of None \<Rightarrow> None | Some [] \<Rightarrow> None | Some (ch # _) \<Rightarrow> Some ch))"

text \<open>The payload decodes to a chunk that has a \<open>choices\<close> array.\<close>

definition usable :: "payload \<Rightarrow> bool" where
  "usable p = (case p of Malformed msg \<Rightarrow> False | Decoded c \<Rightarrow> choices c \<noteq> None)"

text \<open>The \<open>choices[0].delta.content\<close> value of a frame (empty when it has none).\<close>

definition content_of :: "payload \<Rightarrow> string" where
  "content_of p =
     (case choice0 p of
        None \<Rightarrow> []
      | Some ch \<Rightarrow>
          (case delta ch of
             None \<Rightarrow> []
           | Some d \<Rightarrow> (case content d of None \<Rightarrow> [] | Some c \<Rightarrow> c)))"

text \<open>The frame carries a finish signal: \<open>choices[0].finish_reason\<close> is truthy.\<close>

definition carries_finish :: "payload \<Rightarrow> bool" where
  "carries_finish p = (case choice0 p of None \<Rightarrow> False | Some ch \<Rightarrow> truthy (finish_reason ch))"

text \<open>\<open>choices[0]?.delta\<close> and \<open>choices[0]?.finish_reason\<close> of a frame.\<close>

definition delta_of :: "payload \<Rightarrow> chunk_delta option" where
  "delta_of p = (case choice0 p of None \<Rightarrow> None | Some ch \<Rightarrow> delta ch)"

definition finish_of :: "payload \<Rightarrow> string option" where
  "finish_of p = (case choice0 p of None \<Rightarrow> None | Some ch \<Rightarrow> finish_reason ch)"

text \<open>A frame that carries a content fragment and, possibly, a finish signal.\<close>

definition content_frame :: "string \<Rightarrow> string option \<Rightarrow> payload" where
  "content_frame c fr = Decoded \<lparr>chunk_id = ''chatcmpl-123'',
     choices = Some [\<lparr>delta = Some \<lparr>content = Some c, tool_calls = None\<rparr>, finish_reason = fr\<rparr>]\<rparr>"

text \<open>Example frames: a tool-call delta at an index, a bare finish signal, and a chunk
  without a \<open>choices\<close> array.\<close>

definition tool_frame :: "nat \<Rightarrow> string option \<Rightarrow> string option \<Rightarrow> string option \<Rightarrow> payload" where
  "tool_frame i ident nm args = Decoded \<lparr>chunk_id = ''chatcmpl-123'',
     choices = Some [\<lparr>delta = Some \<lparr>content = None, tool_calls = Some
        [\<lparr>d_index = Some i, d_id = ident,
          d_function = Some \<lparr>df_name = nm, df_arguments = args\<rparr>\<rparr>]\<rparr>,
        finish_reason = None\<rparr>]\<rparr>"

definition finish_frame :: "string \<Rightarrow> payload" where
  "finish_frame fr = Decoded \<lparr>chunk_id = ''chatcmpl-123'',
     choices = Some [\<lparr>delta = Some \<lparr>content = None, tool_calls = None\<rparr>,
                     finish_reason = Some fr\<rparr>]\<rparr>"

definition no_choices_frame :: payload where
  "no_choices_frame = Decoded \<lparr>chunk_id = ''chatcmpl-123'', choices = None\<rparr>"

text \<open>The kinds of events, to say which ones a piece of code emits.\<close>

datatype kind =
  KChunk | KContentDelta | KContentDone | KToolDelta | KToolDone | KError | KEnd | KAbort

fun kind_of :: "event \<Rightarrow> kind" where
  "kind_of (EvChunk c) = KChunk"
| "kind_of (EvContentDelta d s) = KContentDelta"
| "kind_of (EvContentDone c) = KContentDone"
| "kind_of (EvToolDelta i d s) = KToolDelta"
| "kind_of (EvToolDone i tc) = KToolDone"
| "kind_of (EvError e) = KError"
| "kind_of EvEnd = KEnd"
| "kind_of EvAbort = KAbort"

text \<open>The events emitted between a state and a later one.\<close>

definition new_events :: "runner \<Rightarrow> runner \<Rightarrow> event list" where
  "new_events r r' = drop (length (emitted r)) (emitted r')"

text \<open>What a sequence of events does to a \<open>done()\<close> promise and to an iterator.\<close>

definition settle_all :: "event list \<Rightarrow> unit promise \<Rightarrow> unit promise" where
  "settle_all evs p = foldl (\<lambda>p ev. settle_done ev p) p evs"

definition observe_all :: "event list \<Rightarrow> iter \<Rightarrow> iter" where
  "observe_all evs it = foldl (\<lambda>it ev. iter_on ev it) it evs"

text \<open>The first \<open>end\<close>, \<open>error\<close> or \<open>abort\<close> event of a sequence, as the outcome of a promise.\<close>

fun first_signal :: "event list \<Rightarrow> unit promise" where
  "first_signal [] = Pending"
| "first_signal (EvEnd # evs) = Resolved ()"
| "first_signal (EvError e # evs) = Rejected e"
| "first_signal (EvAbort # evs) = Rejected APIUserAbortError"
| "first_signal (ev # evs) = first_signal evs"

text \<open>The error of the last \<open>error\<close> or \<open>abort\<close> event of a sequence, after a given one.\<close>

fun last_failure :: "error option \<Rightarrow> event list \<Rightarrow> error option" where
  "last_failure e [] = e"
| "last_failure e (EvError e' # evs) = last_failure (Some e') evs"
| "last_failure e (EvAbort # evs) = last_failure (Some APIUserAbortError) evs"
| "last_failure e (ev # evs) = last_failure e evs"

text \<open>Two iterator states that differ at most in the read position.\<close>

definition same_but_index :: "iter \<Rightarrow> iter \<Rightarrow> bool" where
  "same_but_index a b \<longleftrightarrow>
     it_chunks a = it_chunks b \<and> it_isComplete a = it_isComplete b \<and> it_error a = it_error b"

text \<open>An iterator that has recorded an error: every \<open>next()\<close> throws it.\<close>

definition failed :: "iter \<Rightarrow> bool" where
  "failed it \<longleftrightarrow> it_error it \<noteq> None \<and> it_isComplete it"

text \<open>
  No handler of the caller for \<open>end\<close>, \<open>error\<close> or \<open>abort\<close> calls \<open>abort()\<close>.
\<close>

definition calm :: "(event \<Rightarrow> bool) \<Rightarrow> bool" where
  "calm react \<longleftrightarrow> (\<forall>ev. terminal ev \<longrightarrow> \<not> react ev)"

text \<open>
  \<open>keeps r r'\<close>: the promises and iterators of \<open>r\<close> are still there in \<open>r'\<close>, a
  settled promise is as it was, and an iterator that had recorded an error still has one.
\<close>

definition keeps :: "runner \<Rightarrow> runner \<Rightarrow> bool" where
  "keeps r r' \<longleftrightarrow>
     length (dones r) \<le> length (dones r') \<and>
     (\<forall>k < length (dones r). dones r ! k \<noteq> Pending \<longrightarrow> dones r' ! k = dones r ! k) \<and>
     length (iterators r) \<le> length (iterators r') \<and>
     (\<forall>k < length (iterators r). failed (iterators r ! k) \<longrightarrow> failed (iterators r' ! k))"

text \<open>
  \<open>follows exact r r' evs\<close>: from \<open>r\<close> to \<open>r'\<close> the events \<open>evs\<close> were emitted, in
  this order; the token is signaled whenever \<open>abort\<close> was emitted, and stays signaled.
  When \<open>exact\<close> holds, the promises and iterators of \<open>r\<close> have seen the events in the
  order of emission (which is so when the handlers are calm).
\<close>

definition follows :: "bool \<Rightarrow> runner \<Rightarrow> runner \<Rightarrow> event list \<Rightarrow> bool" where
  "follows exact r r' evs \<longleftrightarrow>
     emitted r' = emitted r @ evs \<and>
     length (dones r') = length (dones r) \<and> length (iterators r') = length (iterators r) \<and>
     keeps r r' \<and>
     (exact \<longrightarrow> dones r' = map (settle_all evs) (dones r) \<and>
                iterators r' = map (observe_all evs) (iterators r)) \<and>
     (EvAbort \<in> set evs \<longrightarrow> aborted r') \<and> (aborted r \<longrightarrow> aborted r')"

text \<open>The same across public calls, which add promises and iterators and move read positions.\<close>

definition extends :: "bool \<Rightarrow> runner \<Rightarrow> runner \<Rightarrow> event list \<Rightarrow> bool" where
  "extends exact r r' evs \<longleftrightarrow>
     emitted r' = emitted r @ evs \<and>
     keeps r r' \<and>
     (exact \<longrightarrow>
        (\<forall>k < length (dones r). dones r' ! k = settle_all evs (dones r ! k)) \<and>
        (\<forall>k < length (iterators r).
            same_but_index (iterators r' ! k) (observe_all evs (iterators r ! k)))) \<and>
     (EvAbort \<in> set evs \<longrightarrow> aborted r') \<and> (aborted r \<longrightarrow> aborted r')"

definition emits :: "bool \<Rightarrow> kind set \<Rightarrow> runner \<Rightarrow> runner \<Rightarrow> bool" where
  "emits exact K r r' \<longleftrightarrow> (\<exists>evs. follows exact r r' evs \<and> kind_of ` set evs \<subseteq> K)"

definition advances :: "bool \<Rightarrow> kind set \<Rightarrow> runner \<Rightarrow> runner \<Rightarrow> bool" where
  "advances exact K r r' \<longleftrightarrow> (\<exists>evs. extends exact r r' evs \<and> kind_of ` set evs \<subseteq> K)"

text \<open>A caller's handler that calls \<open>abort()\<close> when it receives a \<open>chunk\<close> event.\<close>

definition abort_on_chunk :: "event \<Rightarrow> bool" where
  "abort_on_chunk ev = (kind_of ev = KChunk)"

text \<open>A caller's handler that calls \<open>abort()\<close> when it receives an \<open>error\<close> event.\<close>

definition abort_on_error :: "event \<Rightarrow> bool" where
  "abort_on_error ev = (kind_of ev = KError)"

text \<open>In a sequence of events, no \<open>chunk\<close> event comes after an \<open>abort\<close> event.\<close>

fun no_chunk_after_abort :: "event list \<Rightarrow> bool" where
  "no_chunk_after_abort [] = True"
| "no_chunk_after_abort (ev # evs) =
     (if ev = EvAbort then list_all (\<lambda>e. kind_of e \<noteq> KChunk) evs else no_chunk_after_abort evs)"

text \<open>The same observations for the completion runner.\<close>

definition c_new_events :: "c_runner \<Rightarrow> c_runner \<Rightarrow> c_event list" where
  "c_new_events r r' = drop (length (c_emitted r)) (c_emitted r')"

definition c_settle_all :: "c_event list \<Rightarrow> unit promise \<Rightarrow> unit promise" where
  "c_settle_all evs p = foldl (\<lambda>p ev. c_settle_done ev p) p evs"

fun c_first_signal :: "c_event list \<Rightarrow> unit promise" where
  "c_first_signal [] = Pending"
| "c_first_signal (CEvEnd # evs) = Resolved ()"
| "c_first_signal (CEvError e # evs) = Rejected e"
| "c_first_signal (CEvAbort # evs) = Rejected APIUserAbortError"
| "c_first_signal (ev # evs) = c_first_signal evs"

definition c_extends :: "c_runner \<Rightarrow> c_runner \<Rightarrow> c_event list \<Rightarrow> bool" where
  "c_extends r r' evs \<longleftrightarrow>
     c_emitted r' = c_emitted r @ evs \<and>
     length (c_dones r) \<le> length (c_dones r') \<and>
     (\<forall>k < length (c_dones r). c_dones r' ! k = c_settle_all evs (c_dones r ! k))"

definition c_advances :: "c_runner \<Rightarrow> c_runner \<Rightarrow> bool" where
  "c_advances r r' \<longleftrightarrow> (\<exists>evs. c_extends r r' evs)"

definition c_calm :: "(c_event \<Rightarrow> bool) \<Rightarrow> bool" where
  "c_calm react \<longleftrightarrow> (\<forall>ev. c_terminal ev \<longrightarrow> \<not> react ev)"

definition c_abort_on_error :: "c_event \<Rightarrow> bool" where
  "c_abort_on_error ev = (case ev of CEvError e \<Rightarrow> True | _ \<Rightarrow> False)"

text \<open>No handler of the caller calls \<open>abort()\<close> on the completion runner.\<close>

definition c_quiet :: "c_event \<Rightarrow> bool" where
  "c_quiet ev = False"

definition text_frame :: "string \<Rightarrow> string option \<Rightarrow> c_payload" where
  "text_frame t fr = CDecoded \<lparr>c_chunk_id = ''cmpl-123'',
     c_choices = Some [\<lparr>c_text = Some t, c_finish_reason = fr\<rparr>]\<rparr>"

text \<open>An example response body, and the generator started on it with a token attached.\<close>

definition example_source :: "read list" where
  "example_source = [Data ''data: a\<newline>\<newline>'', Data ''da'', Data ''ta: b\<newline>\<newline>'',
     Data ''data: c\<newline>\<newline>'']"

definition example_stream :: stream where
  "example_stream = \<lparr>sp_buffer = [], sp_abortController = Some False, sp_source = example_source,
     sp_pending = [], sp_locked = True, sp_state = Active, sp_reads = 0\<rparr>"

definition frame_of :: "string \<Rightarrow> StreamEvent" where
  "frame_of d = \<lparr>se_data = d, se_event = None, se_id = None, se_retry = None\<rparr>"

text \<open>The handlers in a Set object, in insertion order.\<close>

fun live :: "handler option list \<Rightarrow> handler list" where
  "live [] = []"
| "live (None # entries) = live entries"
| "live (Some h # entries) = h # live entries"

text \<open>The handlers registered for an event, in registration order.\<close>

definition listeners :: "string \<Rightarrow> emitter \<Rightarrow> handler list" where
  "listeners event em =
     (case map_of (em_events em) event of None \<Rightarrow> [] | Some a \<Rightarrow> live (em_heap em ! a))"

text \<open>A Set's entries after the deletion of some handlers.\<close>

definition strike :: "handler list \<Rightarrow> handler option list \<Rightarrow> handler option list" where
  "strike gone entries =
     map (\<lambda>x. case x of None \<Rightarrow> None | Some h \<Rightarrow> if h \<in> set gone then None else Some h) entries"






text \<open>
  A well-formed emitter: the Set objects of different events are different objects of the
  heap, and a Set holds a handler once.
\<close>

definition wf_emitter :: "emitter \<Rightarrow> bool" where
  "wf_emitter em \<longleftrightarrow>
     distinct (map snd (em_events em)) \<and>
     (\<forall>(k, a) \<in> set (em_events em). a < length (em_heap em)) \<and>
     (\<forall>entries \<in> set (em_heap em). distinct (live entries))"

text \<open>
  What holds while \<open>emit\<close> walks through the Set at address \<open>a\<close> that it found for
  \<open>event\<close>: no other event has this Set, and the event still has it or has been dropped
  from the map because the Set became empty.
\<close>

definition iterating :: "string \<Rightarrow> nat \<Rightarrow> emitter \<Rightarrow> bool" where
  "iterating event a em \<longleftrightarrow>
     a < length (em_heap em) \<and>
     (\<forall>(k, a') \<in> set (em_events em). a' < length (em_heap em) \<and> (k \<noteq> event \<longrightarrow> a' \<noteq> a)) \<and>
     (case map_of (em_events em) event of Some a' \<Rightarrow> a' = a | None \<Rightarrow> live (em_heap em ! a) = [])"


text \<open>
  The listeners of one \<open>done()\<close> call on the emitter: \<open>onEnd\<close>, \<open>onError\<close> and
  \<open>onAbort\<close> are the functions 10, 11 and 12, each of which runs \<open>cleanup\<close> first;
  \<open>done()\<close> registers them with \<open>once\<close>.
\<close>

definition done_code :: "nat \<Rightarrow> unit \<Rightarrow> action list \<times> bool" where
  "done_code k d =
     (if k \<in> {10, 11, 12}
      then ([DoOff ''end'' (Fn 10), DoOff ''error'' (Fn 11), DoOff ''abort'' (Fn 12)], False)
      else ([], False))"

definition done_listeners :: emitter where
  "done_listeners =
     once ''abort'' (Fn 12) (once ''error'' (Fn 11) (once ''end'' (Fn 10) new_emitter))"

section \<open>Basic facts about the runner\<close>

lemma notify_fields [simp]:
  "contentSnapshot (notify ev r) = contentSnapshot r"
  "isComplete (notify ev r) = isComplete r"
  "u_finalContent (notify ev r) = u_finalContent r"
  "toolCallsSnapshot (notify ev r) = toolCallsSnapshot r"
  "u_finalToolCalls (notify ev r) = u_finalToolCalls r"
  "aborted (notify ev r) = aborted r"
  "running (notify ev r) = running r"
  by (simp_all add: notify_def)

lemma abort_fields [simp]:
  "contentSnapshot (abort r) = contentSnapshot r"
  "isComplete (abort r) = isComplete r"
  "u_finalContent (abort r) = u_finalContent r"
  "toolCallsSnapshot (abort r) = toolCallsSnapshot r"
  "u_finalToolCalls (abort r) = u_finalToolCalls r"
  "aborted (abort r) = True"
  "running (abort r) = running r"
  by (simp_all add: abort_def)

lemma inform_fields [simp]:
  "contentSnapshot (inform ev r) = contentSnapshot r"
  "isComplete (inform ev r) = isComplete r"
  "u_finalContent (inform ev r) = u_finalContent r"
  "toolCallsSnapshot (inform ev r) = toolCallsSnapshot r"
  "u_finalToolCalls (inform ev r) = u_finalToolCalls r"
  "aborted (inform ev r) = aborted r"
  "running (inform ev r) = running r"
  "emitted (inform ev r) = emitted r"
  by (simp_all add: inform_def)

lemma emit_fields [simp]:
  "contentSnapshot (emit react ev r) = contentSnapshot r"
  "isComplete (emit react ev r) = isComplete r"
  "u_finalContent (emit react ev r) = u_finalContent r"
  "toolCallsSnapshot (emit react ev r) = toolCallsSnapshot r"
  "u_finalToolCalls (emit react ev r) = u_finalToolCalls r"
  "running (emit react ev r) = running r"
  by (simp_all add: emit_def)

lemma map_of_obj_set: "map_of (obj_set k v al) = (map_of al)(k \<mapsto> v)"
  by (induction al) (auto simp: fun_upd_twist)

lemma fold_tool_call_arguments:
  "fn_arguments (tc_function (fold_tool_call d ex)) =
     (case ex of None \<Rightarrow> [] | Some s \<Rightarrow> fn_arguments (tc_function s)) @ fragment d"
  by (simp add: fold_tool_call_def fragment_def Let_def split: option.splits)

lemma handle_Cons_index:
  "d_index d = Some i \<Longrightarrow>
   handleToolCallsDelta react (d # ds) r = handleToolCallsDelta react ds (deliver react i d r)"
  by (simp add: deliver_def Let_def)

lemma arguments_at_deliver:
  "arguments_at i (deliver react i d r) =
     Some ((case arguments_at i r of None \<Rightarrow> [] | Some a \<Rightarrow> a) @ fragment d)"
  by (simp add: deliver_def arguments_at_def map_of_obj_set fold_tool_call_arguments
      split: option.splits)

lemma handle_arguments_at_Some:
  "\<forall>d \<in> set ds. d_index d = Some i \<Longrightarrow> arguments_at i r = Some a \<Longrightarrow>
   arguments_at i (handleToolCallsDelta react ds r) = Some (a @ concat (map fragment ds))"
proof (induction ds arbitrary: r a)
  case Nil then show ?case by simp
next
  case (Cons d ds)
  have di: "d_index d = Some i" using Cons.prems(1) by simp
  have "arguments_at i (deliver react i d r) = Some (a @ fragment d)"
    using Cons.prems(2) by (simp add: arguments_at_deliver)
  then have "arguments_at i (handleToolCallsDelta react ds (deliver react i d r)) =
      Some ((a @ fragment d) @ concat (map fragment ds))"
    using Cons.IH Cons.prems(1) by simp
  then show ?case unfolding handle_Cons_index [OF di] by simp
qed

lemma handle_arguments_at:
  assumes "\<forall>d \<in> set ds. d_index d = Some i" and "ds \<noteq> []"
  shows "arguments_at i (handleToolCallsDelta react ds r) =
     Some ((case arguments_at i r of None \<Rightarrow> [] | Some a \<Rightarrow> a) @ concat (map fragment ds))"
proof -
  obtain d rest where ds: "ds = d # rest" using assms(2) by (cases ds) auto
  have di: "d_index d = Some i" using assms(1) ds by simp
  have "\<forall>d \<in> set rest. d_index d = Some i" using assms(1) ds by simp
  then have "arguments_at i (handleToolCallsDelta react rest (deliver react i d r)) =
      Some (((case arguments_at i r of None \<Rightarrow> [] | Some a \<Rightarrow> a) @ fragment d) @ concat (map fragment rest))"
    by (rule handle_arguments_at_Some) (rule arguments_at_deliver)
  then show ?thesis unfolding ds handle_Cons_index [OF di] by simp
qed

lemma handle_append:
  "handleToolCallsDelta react (ds @ es) r = handleToolCallsDelta react es (handleToolCallsDelta react ds r)"
  by (induction ds arbitrary: r) (simp_all add: Let_def split: option.splits)

lemma foldl_handle_concat:
  "foldl (\<lambda>r ds. handleToolCallsDelta react ds r) r dss = handleToolCallsDelta react (concat dss) r"
  by (induction dss arbitrary: r) (simp_all add: handle_append)

section \<open>C9: tool-call arguments under fragmentation\<close>

text \<open>
  C9. Deliver deltas at one index \<open>i\<close>, in any number of \<open>handleToolCallsDelta\<close> calls
  and with the arguments text cut into any fragments (at least one delta): the
  \<open>function.arguments\<close> value at \<open>i\<close> is then the one that a single delta carrying the
  whole text gives, from the same starting snapshot.
\<close>

theorem tool_call_arguments_fragmentation:
  assumes "\<forall>d \<in> set (concat dss). d_index d = Some i"
    and "concat dss \<noteq> []"
    and "concat (map fragment (concat dss)) = whole"
  shows "arguments_at i (foldl (\<lambda>r ds. handleToolCallsDelta react ds r) r dss) =
         arguments_at i (handleToolCallsDelta react [whole_delta i whole] r)"
proof -
  have "arguments_at i (handleToolCallsDelta react [whole_delta i whole] r) =
      Some ((case arguments_at i r of None \<Rightarrow> [] | Some a \<Rightarrow> a) @ whole)"
    using handle_arguments_at [of "[whole_delta i whole]" i react r]
    by (simp add: whole_delta_def fragment_def)
  moreover have "arguments_at i (handleToolCallsDelta react (concat dss) r) =
      Some ((case arguments_at i r of None \<Rightarrow> [] | Some a \<Rightarrow> a) @ whole)"
    using handle_arguments_at [OF assms(1,2)] assms(3) by simp
  ultimately show ?thesis by (simp add: foldl_handle_concat)
qed

theorem tool_call_arguments_fragmentation_witness:
  "arguments_at 0 (foldl (\<lambda>r ds. handleToolCallsDelta quiet ds r) new_runner
       [[\<lparr>d_index = Some 0, d_id = Some ''call_1'',
          d_function = Some \<lparr>df_name = Some ''f'', df_arguments = Some ''{a''\<rparr>\<rparr>],
        [whole_delta 0 '':1}'']]) =
   arguments_at 0 (handleToolCallsDelta quiet [whole_delta 0 ''{a:1}''] new_runner)"
  using tool_call_arguments_fragmentation
    [of "[[\<lparr>d_index = Some 0, d_id = Some ''call_1'',
            d_function = Some \<lparr>df_name = Some ''f'', df_arguments = Some ''{a''\<rparr>\<rparr>],
          [whole_delta 0 '':1}'']]" 0 "''{a:1}''" quiet new_runner]
  by (simp add: whole_delta_def fragment_def)

section \<open>Processing frames\<close>

declare tool_done_loop.simps [simp del]

lemma truthy_simps [simp]: "truthy None = False" "truthy (Some s) = (s \<noteq> [])"
  by (simp_all add: truthy_def)

lemma handle_fields [simp]:
  "contentSnapshot (handleToolCallsDelta react ds r) = contentSnapshot r"
  "isComplete (handleToolCallsDelta react ds r) = isComplete r"
  "u_finalContent (handleToolCallsDelta react ds r) = u_finalContent r"
  "u_finalToolCalls (handleToolCallsDelta react ds r) = u_finalToolCalls r"
  "running (handleToolCallsDelta react ds r) = running r"
  by (induction ds arbitrary: r; simp add: Let_def split: option.splits)+

lemma tool_done_loop_fields [simp]:
  "contentSnapshot (tool_done_loop react i r) = contentSnapshot r"
  "isComplete (tool_done_loop react i r) = isComplete r"
  "u_finalContent (tool_done_loop react i r) = u_finalContent r"
  "toolCallsSnapshot (tool_done_loop react i r) = toolCallsSnapshot r"
  "u_finalToolCalls (tool_done_loop react i r) = u_finalToolCalls r"
  "running (tool_done_loop react i r) = running r"
  by (induction react i r rule: tool_done_loop.induct;
      subst tool_done_loop.simps; simp split: option.splits)+

lemma on_content_fields [simp]:
  "isComplete (on_content react dl r) = isComplete r"
  "u_finalContent (on_content react dl r) = u_finalContent r"
  "toolCallsSnapshot (on_content react dl r) = toolCallsSnapshot r"
  "u_finalToolCalls (on_content react dl r) = u_finalToolCalls r"
  "running (on_content react dl r) = running r"
  by (simp_all add: on_content_def Let_def split: option.splits)

lemma on_content_snapshot:
  "contentSnapshot (on_content react dl r) =
     contentSnapshot r @ (case dl of None \<Rightarrow> [] | Some d \<Rightarrow> (case content d of None \<Rightarrow> [] | Some c \<Rightarrow> c))"
  by (simp add: on_content_def Let_def split: option.splits)

lemma on_tool_calls_fields [simp]:
  "contentSnapshot (on_tool_calls react dl r) = contentSnapshot r"
  "isComplete (on_tool_calls react dl r) = isComplete r"
  "u_finalContent (on_tool_calls react dl r) = u_finalContent r"
  "u_finalToolCalls (on_tool_calls react dl r) = u_finalToolCalls r"
  "running (on_tool_calls react dl r) = running r"
  by (simp_all add: on_tool_calls_def split: option.splits)

lemma on_finish_fields [simp]:
  "contentSnapshot (on_finish react fr r) = contentSnapshot r"
  "toolCallsSnapshot (on_finish react fr r) = toolCallsSnapshot r"
  "running (on_finish react fr r) = running r"
  by (simp_all add: on_finish_def Let_def)

lemma on_finish_final:
  "u_finalContent (on_finish react fr r) = (if truthy fr then Some (contentSnapshot r) else u_finalContent r)"
  "isComplete (on_finish react fr r) = (if truthy fr then True else isComplete r)"
  "u_finalToolCalls (on_finish react fr r) =
     (if truthy fr then Some (map fst (toolCallsSnapshot r)) else u_finalToolCalls r)"
  by (simp_all add: on_finish_def Let_def)

lemma process_frame_usable:
  "choices c \<noteq> None \<Longrightarrow>
   process_frame react (Decoded c) r =
     on_finish react (finish_of (Decoded c))
       (on_tool_calls react (delta_of (Decoded c))
          (on_content react (delta_of (Decoded c)) (emit react (EvChunk c) r)))"
  by (auto simp: process_frame_def delta_of_def finish_of_def choice0_def Let_def
      split: list.splits)

lemma process_frame_unusable:
  "\<not> usable p \<Longrightarrow>
   process_frame react p r =
     (case p of Malformed msg \<Rightarrow> emit react (EvError (SyntaxError msg)) r
      | Decoded c \<Rightarrow> emit react (EvError (TypeError ''choices'')) (emit react (EvChunk c) r))"
  by (auto simp: process_frame_def usable_def Let_def split: payload.splits)

lemma content_of_unusable: "\<not> usable p \<Longrightarrow> content_of p = [] \<and> \<not> carries_finish p"
  by (auto simp: usable_def content_of_def carries_finish_def choice0_def split: payload.splits)

lemma process_frame_running [simp]: "running (process_frame react p r) = running r"
proof (cases "usable p")
  case True
  then obtain c where "p = Decoded c" "choices c \<noteq> None"
    by (auto simp: usable_def split: payload.splits)
  then show ?thesis by (simp add: process_frame_usable)
next
  case False
  then show ?thesis by (simp add: process_frame_unusable split: payload.splits)
qed

lemma process_frame_content:
  "contentSnapshot (process_frame react p r) = contentSnapshot r @ content_of p"
proof (cases "usable p")
  case True
  then obtain c where "p = Decoded c" "choices c \<noteq> None"
    by (auto simp: usable_def split: payload.splits)
  then show ?thesis
    by (simp add: process_frame_usable on_content_snapshot content_of_def delta_of_def
        split: option.splits)
next
  case False
  then show ?thesis
    by (simp add: process_frame_unusable content_of_unusable split: payload.splits)
qed

lemma process_frame_final:
  "u_finalContent (process_frame react p r) =
     (if carries_finish p then Some (contentSnapshot r @ content_of p) else u_finalContent r)"
  "isComplete (process_frame react p r) = (if carries_finish p then True else isComplete r)"
proof -
  show "u_finalContent (process_frame react p r) =
     (if carries_finish p then Some (contentSnapshot r @ content_of p) else u_finalContent r)"
  proof (cases "usable p")
    case True
    then obtain c where "p = Decoded c" "choices c \<noteq> None"
      by (auto simp: usable_def split: payload.splits)
    then show ?thesis
      by (simp add: process_frame_usable on_finish_final on_content_snapshot content_of_def
          delta_of_def finish_of_def carries_finish_def split: option.splits)
  next
    case False
    then show ?thesis
      by (simp add: process_frame_unusable content_of_unusable split: payload.splits)
  qed
  show "isComplete (process_frame react p r) = (if carries_finish p then True else isComplete r)"
  proof (cases "usable p")
    case True
    then obtain c where "p = Decoded c" "choices c \<noteq> None"
      by (auto simp: usable_def split: payload.splits)
    then show ?thesis
      by (simp add: process_frame_usable on_finish_final finish_of_def carries_finish_def
          split: option.splits)
  next
    case False
    then show ?thesis
      by (simp add: process_frame_unusable content_of_unusable split: payload.splits)
  qed
qed

lemma settle_nonterminal [simp]:
  "\<not> terminal ev \<Longrightarrow> settle_done ev p = p"
  "\<not> terminal ev \<Longrightarrow> settle_content fc ev q = q"
  by (cases ev; cases p; cases q; simp)+

lemma notify_nonterminal [simp]:
  "\<not> terminal ev \<Longrightarrow> dones (notify ev r) = dones r"
  "\<not> terminal ev \<Longrightarrow> contents (notify ev r) = contents r"
  by (auto simp: notify_def intro!: map_idI)

lemma emit_quiet: "emit quiet ev r = notify ev r"
  by (simp add: emit_def quiet_def)

lemma run_Nil [simp]: "run react [] r = r"
  by (simp add: run_def)

lemma run_Cons [simp]: "run react (x # xs) r = run react xs (step react x r)"
  by (simp add: run_def)

lemma run_append [simp]: "run react (xs @ ys) r = run react ys (run react xs r)"
  by (simp add: run_def)

lemma handle_quiet [simp]:
  "aborted (handleToolCallsDelta quiet ds r) = aborted r"
  "dones (handleToolCallsDelta quiet ds r) = dones r"
  "contents (handleToolCallsDelta quiet ds r) = contents r"
  by (induction ds arbitrary: r; simp add: Let_def emit_quiet split: option.splits)+

lemma tool_done_loop_quiet [simp]:
  "aborted (tool_done_loop quiet i r) = aborted r"
  "dones (tool_done_loop quiet i r) = dones r"
  "contents (tool_done_loop quiet i r) = contents r"
  by (induction quiet i r rule: tool_done_loop.induct;
      subst tool_done_loop.simps; simp add: emit_quiet split: option.splits)+

lemma process_frame_quiet:
  assumes "usable p"
  shows "aborted (process_frame quiet p r) = aborted r"
    and "dones (process_frame quiet p r) = dones r"
    and "contents (process_frame quiet p r) = contents r"
proof -
  obtain c where p: "p = Decoded c" "choices c \<noteq> None"
    using assms by (auto simp: usable_def split: payload.splits)
  show "aborted (process_frame quiet p r) = aborted r"
    by (simp add: p process_frame_usable on_finish_def on_tool_calls_def on_content_def
        emit_quiet Let_def split: option.splits)
  show "dones (process_frame quiet p r) = dones r"
    by (simp add: p process_frame_usable on_finish_def on_tool_calls_def on_content_def
        emit_quiet Let_def split: option.splits)
  show "contents (process_frame quiet p r) = contents r"
    by (simp add: p process_frame_usable on_finish_def on_tool_calls_def on_content_def
        emit_quiet Let_def split: option.splits)
qed

lemma step_Frame_live:
  "running r \<Longrightarrow> \<not> aborted r \<Longrightarrow> step react (Frame p) r = process_frame react p r"
  by (simp add: step_def)

lemma run_frames_quiet:
  assumes "running r" and "\<not> aborted r" and "\<forall>p \<in> set ps. usable p"
  shows "running (run quiet (map Frame ps) r) \<and> \<not> aborted (run quiet (map Frame ps) r) \<and>
         dones (run quiet (map Frame ps) r) = dones r \<and>
         contents (run quiet (map Frame ps) r) = contents r \<and>
         contentSnapshot (run quiet (map Frame ps) r) = contentSnapshot r @ concat (map content_of ps)"
  using assms
proof (induction ps arbitrary: r)
  case Nil then show ?case by simp
next
  case (Cons p ps)
  let ?r1 = "process_frame quiet p r"
  have u: "usable p" using Cons.prems(3) by simp
  have "running ?r1" "\<not> aborted ?r1"
    using Cons.prems(1,2) by (simp_all add: process_frame_quiet(1) [OF u])
  then have "running (run quiet (map Frame ps) ?r1) \<and> \<not> aborted (run quiet (map Frame ps) ?r1) \<and>
         dones (run quiet (map Frame ps) ?r1) = dones ?r1 \<and>
         contents (run quiet (map Frame ps) ?r1) = contents ?r1 \<and>
         contentSnapshot (run quiet (map Frame ps) ?r1) = contentSnapshot ?r1 @ concat (map content_of ps)"
    using Cons.IH Cons.prems(3) by simp
  then show ?case
    using Cons.prems(1,2)
    by (simp add: step_Frame_live process_frame_quiet [OF u] process_frame_content)
qed

lemma run_frames_no_finish:
  assumes "running r" and "\<not> aborted r" and "\<forall>p \<in> set ps. usable p \<and> \<not> carries_finish p"
  shows "u_finalContent (run quiet (map Frame ps) r) = u_finalContent r \<and>
         isComplete (run quiet (map Frame ps) r) = isComplete r"
  using assms
proof (induction ps arbitrary: r)
  case Nil then show ?case by simp
next
  case (Cons p ps)
  let ?r1 = "process_frame quiet p r"
  have u: "usable p" "\<not> carries_finish p" using Cons.prems(3) by simp_all
  have "running ?r1" "\<not> aborted ?r1"
    using Cons.prems(1,2) by (simp_all add: process_frame_quiet(1) [OF u(1)])
  then have "u_finalContent (run quiet (map Frame ps) ?r1) = u_finalContent ?r1 \<and>
         isComplete (run quiet (map Frame ps) ?r1) = isComplete ?r1"
    using Cons.IH Cons.prems(3) by simp
  then show ?case
    using Cons.prems(1,2) u(2) by (simp add: step_Frame_live process_frame_final)
qed

lemma run_frames_finish:
  assumes "running r" and "\<not> aborted r" and "\<forall>p \<in> set ps. usable p"
    and "ps \<noteq> []" and "carries_finish (last ps)"
  shows "u_finalContent (run quiet (map Frame ps) r) = Some (contentSnapshot r @ concat (map content_of ps)) \<and>
         isComplete (run quiet (map Frame ps) r)"
proof -
  obtain qs q where ps: "ps = qs @ [q]" using assms(4) by (metis rev_exhaust)
  let ?r1 = "run quiet (map Frame qs) r"
  have q: "carries_finish q" using assms(5) ps by simp
  have "\<forall>p \<in> set qs. usable p" using assms(3) ps by simp
  then have r1: "running ?r1" "\<not> aborted ?r1"
      "contentSnapshot ?r1 = contentSnapshot r @ concat (map content_of qs)"
    using run_frames_quiet [OF assms(1,2), of qs] by simp_all
  show ?thesis
    using r1 q by (simp add: ps step_Frame_live process_frame_final)
qed

lemma finalContent_fields [simp]:
  "contentSnapshot (finalContent r) = contentSnapshot r"
  "isComplete (finalContent r) = isComplete r"
  "u_finalContent (finalContent r) = u_finalContent r"
  "aborted (finalContent r) = aborted r"
  "running (finalContent r) = running r"
  "dones (finalContent r) = dones r"
  by (simp_all add: finalContent_def)

lemma step_SourceEnd_complete:
  "running r \<Longrightarrow> isComplete r \<Longrightarrow>
   step react SourceEnd r = (emit react EvEnd r)\<lparr>running := False\<rparr>"
  by (simp add: step_def)

section \<open>The events a piece of the runner emits\<close>

lemma settle_all_simps [simp]:
  "settle_all [] p = p"
  "settle_all (ev # evs) p = settle_all evs (settle_done ev p)"
  "settle_all (evs @ evs') p = settle_all evs' (settle_all evs p)"
  by (simp_all add: settle_all_def)

lemma observe_all_simps [simp]:
  "observe_all [] it = it"
  "observe_all (ev # evs) it = observe_all evs (iter_on ev it)"
  "observe_all (evs @ evs') it = observe_all evs' (observe_all evs it)"
  by (simp_all add: observe_all_def)

lemma settle_all_Nil_fun [simp]: "settle_all [] = (\<lambda>p. p)"
  by (rule ext) simp

lemma observe_all_Nil_fun [simp]: "observe_all [] = (\<lambda>it. it)"
  by (rule ext) simp

lemma settle_all_append_fun: "settle_all (evs @ evs') = settle_all evs' \<circ> settle_all evs"
  by (rule ext) simp

lemma observe_all_append_fun: "observe_all (evs @ evs') = observe_all evs' \<circ> observe_all evs"
  by (rule ext) simp

lemma settle_done_settled: "p \<noteq> Pending \<Longrightarrow> settle_done ev p = p"
  by (cases p; cases ev) simp_all

lemma settle_done_data: "\<not> terminal ev \<Longrightarrow> settle_done ev p = p"
  by (cases ev; cases p) simp_all

lemma iter_on_data:
  "\<not> terminal ev \<Longrightarrow> iter_on ev (iter_on EvAbort it) = iter_on EvAbort (iter_on ev it)"
  by (cases ev) simp_all

lemma failed_iter_on: "failed it \<Longrightarrow> failed (iter_on ev it)"
  by (cases ev) (simp_all add: failed_def)

lemma keeps_refl: "keeps r r"
  by (simp add: keeps_def)

lemma keeps_trans:
  assumes "keeps r r'" and "keeps r' r''"
  shows "keeps r r''"
proof -
  have "dones r'' ! k = dones r ! k" if k: "k < length (dones r)" and p: "dones r ! k \<noteq> Pending" for k
  proof -
    have 1: "dones r' ! k = dones r ! k" using assms(1) k p by (simp add: keeps_def)
    have "k < length (dones r')" using assms(1) k by (simp add: keeps_def)
    then have "dones r'' ! k = dones r' ! k" using assms(2) 1 p by (simp add: keeps_def)
    then show ?thesis using 1 by simp
  qed
  moreover have "failed (iterators r'' ! k)"
    if k: "k < length (iterators r)" and f: "failed (iterators r ! k)" for k
  proof -
    have 1: "failed (iterators r' ! k)" using assms(1) k f by (simp add: keeps_def)
    have "k < length (iterators r')" using assms(1) k by (simp add: keeps_def)
    then show ?thesis using assms(2) 1 by (simp add: keeps_def)
  qed
  moreover have "length (dones r) \<le> length (dones r'')" "length (iterators r) \<le> length (iterators r'')"
    using assms by (simp_all add: keeps_def)
  ultimately show ?thesis by (simp add: keeps_def)
qed

lemma keeps_inform: "keeps r (inform ev r)"
  by (simp add: keeps_def inform_def settle_done_settled failed_iter_on)

lemma keeps_notify: "keeps r (notify ev r)"
  by (simp add: keeps_def notify_def settle_done_settled failed_iter_on)

lemma keeps_abort: "keeps r (abort r)"
  using keeps_notify [of "r\<lparr>aborted := True\<rparr>" EvAbort] by (simp add: keeps_def abort_def)

lemma keeps_emit: "keeps r (emit react ev r)"
proof (cases "react ev \<and> ev \<noteq> EvAbort")
  case True
  have "keeps (r\<lparr>emitted := emitted r @ [ev]\<rparr>) (inform ev (abort (r\<lparr>emitted := emitted r @ [ev]\<rparr>)))"
    using keeps_trans [OF keeps_abort keeps_inform] .
  then have "keeps r (inform ev (abort (r\<lparr>emitted := emitted r @ [ev]\<rparr>)))"
    by (simp add: keeps_def)
  then show ?thesis using True by (simp add: emit_def)
next
  case False
  then show ?thesis by (auto simp: emit_def keeps_notify)
qed

lemma emitted_emit:
  "emitted (emit react ev r) = emitted r @ ev # (if react ev \<and> ev \<noteq> EvAbort then [EvAbort] else [])"
  by (simp add: emit_def inform_def notify_def abort_def)

lemma emit_data:
  "\<not> terminal ev \<Longrightarrow> emit react ev r = (if react ev then abort (notify ev r) else notify ev r)"
  by (cases ev) (simp_all add: emit_def inform_def notify_def abort_def)

lemma emit_calm:
  "calm react \<Longrightarrow> emit react ev r = (if react ev then abort (notify ev r) else notify ev r)"
proof (cases "terminal ev")
  case False then show ?thesis by (rule emit_data)
next
  case True
  assume "calm react"
  then have "\<not> react ev" using True by (simp add: calm_def)
  then show ?thesis by (simp add: emit_def)
qed

lemma follows_refl: "follows x r r []"
  by (simp add: follows_def keeps_refl)

lemma follows_trans:
  "follows x r r' evs \<Longrightarrow> follows x r' r'' evs' \<Longrightarrow> follows x r r'' (evs @ evs')"
  using keeps_trans by (auto simp: follows_def settle_all_append_fun observe_all_append_fun)

lemma settle_all_single_fun [simp]: "settle_all [ev] = settle_done ev"
  by (rule ext) simp

lemma observe_all_single_fun [simp]: "observe_all [ev] = iter_on ev"
  by (rule ext) simp

lemma follows_notify: "ev = EvAbort \<longrightarrow> aborted r \<Longrightarrow> follows x r (notify ev r) [ev]"
  using keeps_notify [of r ev] by (auto simp: follows_def notify_def)

lemma follows_abort: "follows x r (abort r) [EvAbort]"
  using keeps_abort [of r] by (simp add: follows_def notify_def abort_def)

lemma follows_emit:
  assumes "ev = EvAbort \<longrightarrow> aborted r"
  shows "follows (calm react) r (emit react ev r)
           (ev # (if react ev \<and> ev \<noteq> EvAbort then [EvAbort] else []))"
proof (cases "react ev \<and> ev \<noteq> EvAbort")
  case False
  then have "emit react ev r = notify ev r" by (auto simp: emit_def)
  then show ?thesis using False follows_notify [OF assms, of "calm react"] by auto
next
  case True
  show ?thesis
  proof (cases "calm react")
    case False
    then show ?thesis
      using True keeps_emit [of r react ev]
      by (simp add: follows_def emitted_emit) (simp add: emit_def inform_def notify_def abort_def)
  next
    case calm: True
    then have "\<not> terminal ev" using True by (auto simp: calm_def)
    then have "emit react ev r = abort (notify ev r)" using True by (simp add: emit_data)
    moreover have "follows (calm react) r (abort (notify ev r)) ([ev] @ [EvAbort])"
      using assms by (intro follows_trans [OF follows_notify follows_abort])
    ultimately show ?thesis using True by simp
  qed
qed

lemma emits_refl: "emits x K r r"
  unfolding emits_def using follows_refl by fastforce

lemma emits_trans: "emits x K r r' \<Longrightarrow> emits x K r' r'' \<Longrightarrow> emits x K r r''"
  unfolding emits_def
  by (metis follows_trans set_append image_Un Un_subset_iff)

lemma emits_mono: "emits x K r r' \<Longrightarrow> K \<subseteq> K' \<Longrightarrow> emits x K' r r'"
  unfolding emits_def by blast

lemma emitsI: "follows x r r' evs \<Longrightarrow> kind_of ` set evs \<subseteq> K \<Longrightarrow> emits x K r r'"
  unfolding emits_def by blast

lemma emits_emit:
  assumes "kind_of ev \<in> K" and "KAbort \<in> K" and "ev = EvAbort \<longrightarrow> aborted r"
  shows "emits (calm react) K r (emit react ev r)"
  using follows_emit [OF assms(3), of react] assms(1,2) by (intro emitsI) auto

lemma emits_emit_quiet:
  assumes "kind_of ev \<in> K" and "ev = EvAbort \<longrightarrow> aborted r"
  shows "emits x K r (emit quiet ev r)"
proof -
  have "follows x r (notify ev r) [ev]" using assms(2) by (rule follows_notify)
  then have "emits x K r (notify ev r)"
    using assms by (intro emitsI) auto
  then show ?thesis by (simp add: emit_def quiet_def)
qed

lemma emits_field_update:
  "emits x K (r\<lparr>contentSnapshot := c\<rparr>) r' \<Longrightarrow> emits x K r r'"
  "emits x K (r\<lparr>toolCallsSnapshot := t\<rparr>) r' \<Longrightarrow> emits x K r r'"
  "emits x K (r\<lparr>u_finalContent := f, u_finalToolCalls := g, isComplete := b\<rparr>) r' \<Longrightarrow> emits x K r r'"
  "emits x K (r\<lparr>u_finalContent := f, isComplete := b\<rparr>) r' \<Longrightarrow> emits x K r r'"
  by (simp_all add: emits_def follows_def keeps_def)

lemma emits_handle:
  assumes "KToolDelta \<in> K" and "react = quiet \<or> KAbort \<in> K"
  shows "emits (calm react) K r (handleToolCallsDelta react ds r)"
proof (induction ds arbitrary: r)
  case Nil show ?case by (simp add: emits_refl)
next
  case (Cons d ds)
  show ?case
  proof (cases "d_index d")
    case None then show ?thesis using Cons.IH by simp
  next
    case (Some i)
    let ?s = "fold_tool_call d (map_of (toolCallsSnapshot r) i)"
    let ?r1 = "r\<lparr>toolCallsSnapshot := obj_set i ?s (toolCallsSnapshot r)\<rparr>"
    have "emits (calm react) K ?r1 (emit react (EvToolDelta i d ?s) ?r1)"
      using assms emits_emit [of "EvToolDelta i d ?s" K] emits_emit_quiet [of "EvToolDelta i d ?s" K]
      by auto
    then have "emits (calm react) K r (emit react (EvToolDelta i d ?s) ?r1)"
      by (rule emits_field_update)
    then have "emits (calm react) K r (handleToolCallsDelta react ds (emit react (EvToolDelta i d ?s) ?r1))"
      using Cons.IH emits_trans by blast
    then show ?thesis
      using Some by (simp add: Let_def)
  qed
qed

lemma emits_emit_any:
  assumes "kind_of ev \<in> K" and "ev \<noteq> EvAbort" and "react = quiet \<or> KAbort \<in> K"
  shows "emits (calm react) K r (emit react ev r)"
  using assms emits_emit [of ev K r react] emits_emit_quiet [of ev K r] by auto

lemma emits_loop:
  "KToolDone \<in> K \<Longrightarrow> react = quiet \<or> KAbort \<in> K \<Longrightarrow> emits (calm react) K r (tool_done_loop react i r)"
proof (induction react i r rule: tool_done_loop.induct)
  case (1 react i r)
  show ?case
  proof (cases "i < length (toolCallsSnapshot r)")
    case False
    have "tool_done_loop react i r = r"
      using False by (subst tool_done_loop.simps) simp
    then show ?thesis by (simp add: emits_refl)
  next
    case True
    define r1 where "r1 = (case map_of (toolCallsSnapshot r) i of None \<Rightarrow> r
               | Some tc \<Rightarrow> emit react (EvToolDone i tc) r)"
    have a: "emits (calm react) K r r1"
    proof (cases "map_of (toolCallsSnapshot r) i")
      case None
      then show ?thesis by (simp add: r1_def emits_refl)
    next
      case (Some tc)
      have "emits (calm react) K r (emit react (EvToolDone i tc) r)"
        using "1.prems" by (intro emits_emit_any) simp_all
      then show ?thesis using Some by (simp add: r1_def)
    qed
    have "emits (calm react) K r1 (tool_done_loop react (i + 1) r1)"
      unfolding r1_def using "1.prems" by (intro "1.IH" [OF True])
    then have b: "emits (calm react) K r (tool_done_loop react (i + 1) r1)"
      using a emits_trans by blast
    have "tool_done_loop react i r = tool_done_loop react (i + 1) r1"
      unfolding r1_def using True by (subst tool_done_loop.simps) simp
    then show ?thesis using b by simp
  qed
qed

lemma emits_on_content:
  assumes "KContentDelta \<in> K" and "react = quiet \<or> KAbort \<in> K"
  shows "emits (calm react) K r (on_content react dl r)"
proof -
  have "emits (calm react) K r (emit react (EvContentDelta c s) (r\<lparr>contentSnapshot := s\<rparr>))" for c s
  proof (rule emits_field_update(1))
    show "emits (calm react) K (r\<lparr>contentSnapshot := s\<rparr>) (emit react (EvContentDelta c s) (r\<lparr>contentSnapshot := s\<rparr>))"
      using assms by (intro emits_emit_any) simp_all
  qed
  then show ?thesis
    unfolding on_content_def Let_def by (auto simp: emits_refl split: option.splits)
qed

lemma emits_on_tool_calls:
  assumes "KToolDelta \<in> K" and "react = quiet \<or> KAbort \<in> K"
  shows "emits (calm react) K r (on_tool_calls react dl r)"
  unfolding on_tool_calls_def
  using emits_handle [OF assms] by (auto simp: emits_refl split: option.splits)

lemma emits_on_finish:
  assumes "truthy fr \<longrightarrow> {KContentDone, KToolDone} \<subseteq> K" and "react = quiet \<or> KAbort \<in> K"
  shows "emits (calm react) K r (on_finish react fr r)"
proof (cases "truthy fr")
  case False
  then show ?thesis by (simp add: on_finish_def emits_refl)
next
  case True
  then have K: "KContentDone \<in> K" "KToolDone \<in> K" using assms(1) by auto
  define r1 where "r1 = r\<lparr>u_finalContent := Some (contentSnapshot r),
                u_finalToolCalls := Some (map fst (toolCallsSnapshot r)), isComplete := True\<rparr>"
  define r2 where "r2 = (if contentSnapshot r \<noteq> [] then emit react (EvContentDone (contentSnapshot r)) r1 else r1)"
  have "emits (calm react) K r1 (emit react (EvContentDone (contentSnapshot r)) r1)"
    using K(1) assms(2) by (intro emits_emit_any) simp_all
  then have "emits (calm react) K r1 r2"
    by (simp add: r2_def emits_refl)
  then have "emits (calm react) K r r2" unfolding r1_def by (rule emits_field_update(3))
  moreover have "emits (calm react) K r2 (tool_done_loop react 0 r2)"
    using K(2) assms(2) by (rule emits_loop)
  ultimately have "emits (calm react) K r (tool_done_loop react 0 r2)" by (rule emits_trans)
  moreover have "on_finish react fr r = tool_done_loop react 0 r2"
    using True by (simp add: on_finish_def Let_def r2_def r1_def)
  ultimately show ?thesis by simp
qed

lemma emits_after_chunk:
  assumes "{KContentDelta, KToolDelta, KError} \<subseteq> K"
    and "carries_finish (Decoded c) \<longrightarrow> {KContentDone, KToolDone} \<subseteq> K"
    and "react = quiet \<or> KAbort \<in> K"
  shows "emits (calm react) K (emit react (EvChunk c) r) (process_frame react (Decoded c) r)"
proof (cases "choices c")
  case None
  have "emits (calm react) K (emit react (EvChunk c) r)
          (emit react (EvError (TypeError ''choices'')) (emit react (EvChunk c) r))"
    using assms by (intro emits_emit_any) auto
  then show ?thesis using None by (simp add: process_frame_def)
next
  case (Some chs)
  define r1 where "r1 = emit react (EvChunk c) r"
  define r2 where "r2 = on_content react (delta_of (Decoded c)) r1"
  define r3 where "r3 = on_tool_calls react (delta_of (Decoded c)) r2"
  have fin: "truthy (finish_of (Decoded c)) \<longrightarrow> {KContentDone, KToolDone} \<subseteq> K"
    using assms(2) by (simp add: carries_finish_def finish_of_def split: option.splits)
  have "emits (calm react) K r1 r2" unfolding r2_def using assms by (intro emits_on_content) auto
  moreover have "emits (calm react) K r2 r3" unfolding r3_def using assms by (intro emits_on_tool_calls) auto
  moreover have "emits (calm react) K r3 (on_finish react (finish_of (Decoded c)) r3)"
    using fin assms(3) by (rule emits_on_finish)
  ultimately have "emits (calm react) K r1 (on_finish react (finish_of (Decoded c)) r3)"
    using emits_trans by blast
  moreover have "process_frame react (Decoded c) r = on_finish react (finish_of (Decoded c)) r3"
    using Some by (simp add: process_frame_usable r3_def r2_def r1_def)
  ultimately show ?thesis by (simp add: r1_def)
qed

lemma emits_process_frame:
  assumes "{KChunk, KContentDelta, KToolDelta, KError} \<subseteq> K"
    and "carries_finish p \<longrightarrow> {KContentDone, KToolDone} \<subseteq> K"
    and "react = quiet \<or> KAbort \<in> K"
  shows "emits (calm react) K r (process_frame react p r)"
proof (cases p)
  case (Malformed msg)
  have "emits (calm react) K r (emit react (EvError (SyntaxError msg)) r)"
    using assms by (intro emits_emit_any) auto
  then show ?thesis using Malformed by (simp add: process_frame_def)
next
  case (Decoded c)
  have "emits (calm react) K r (emit react (EvChunk c) r)"
    using assms by (intro emits_emit_any) auto
  moreover have "emits (calm react) K (emit react (EvChunk c) r) (process_frame react (Decoded c) r)"
    using assms Decoded by (intro emits_after_chunk) auto
  ultimately show ?thesis using Decoded emits_trans by blast
qed

lemma same_but_index_refl [simp]: "same_but_index a a"
  by (simp add: same_but_index_def)

lemma same_but_index_iter_on:
  "same_but_index a b \<Longrightarrow> same_but_index (iter_on ev a) (iter_on ev b)"
  by (cases ev) (simp_all add: same_but_index_def)

lemma same_but_index_observe_all:
  "same_but_index a b \<Longrightarrow> same_but_index (observe_all evs a) (observe_all evs b)"
  by (induction evs arbitrary: a b) (simp_all add: same_but_index_iter_on)

lemma same_but_index_trans:
  "same_but_index a b \<Longrightarrow> same_but_index b c \<Longrightarrow> same_but_index a c"
  by (simp add: same_but_index_def)

lemma follows_extends: "follows x r r' evs \<Longrightarrow> extends x r r' evs"
  by (simp add: follows_def extends_def)

lemma extends_refl: "extends x r r []"
  by (simp add: extends_def keeps_refl)

lemma extends_trans:
  assumes "extends x r r' evs" and "extends x r' r'' evs'"
  shows "extends x r r'' (evs @ evs')"
proof -
  have len: "length (dones r) \<le> length (dones r')" "length (iterators r) \<le> length (iterators r')"
    using assms(1) by (simp_all add: extends_def keeps_def)
  have "same_but_index (iterators r'' ! k) (observe_all (evs @ evs') (iterators r ! k))"
    if k: "k < length (iterators r)" and x: x for k
  proof -
    have 1: "same_but_index (iterators r' ! k) (observe_all evs (iterators r ! k))"
      using assms(1) k x by (simp add: extends_def)
    have "k < length (iterators r')" using len k by simp
    then have 2: "same_but_index (iterators r'' ! k) (observe_all evs' (iterators r' ! k))"
      using assms(2) x by (simp add: extends_def)
    show ?thesis
      using same_but_index_trans [OF 2 same_but_index_observe_all [OF 1]] by simp
  qed
  moreover have "dones r'' ! k = settle_all (evs @ evs') (dones r ! k)"
    if k: "k < length (dones r)" and x: x for k
  proof -
    have "k < length (dones r')" using len k by simp
    then show ?thesis using assms k x by (simp add: extends_def)
  qed
  moreover have "keeps r r''"
    using assms keeps_trans by (auto simp: extends_def)
  ultimately show ?thesis
    using assms by (auto simp: extends_def)
qed

lemma advancesI: "extends x r r' evs \<Longrightarrow> kind_of ` set evs \<subseteq> K \<Longrightarrow> advances x K r r'"
  unfolding advances_def by blast

lemma emits_advances: "emits x K r r' \<Longrightarrow> advances x K r r'"
  unfolding emits_def advances_def using follows_extends by blast

lemma advances_refl: "advances x K r r"
  using extends_refl [of x r] by (auto simp: advances_def)

lemma advances_trans: "advances x K r r' \<Longrightarrow> advances x K r' r'' \<Longrightarrow> advances x K r r''"
  unfolding advances_def
  by (metis extends_trans set_append image_Un Un_subset_iff)

lemma advances_mono: "advances x K r r' \<Longrightarrow> K \<subseteq> K' \<Longrightarrow> advances x K' r r'"
  unfolding advances_def by blast

lemma advances_stop: "advances x K r r' \<Longrightarrow> advances x K r (r'\<lparr>running := False\<rparr>)"
  by (simp add: advances_def extends_def keeps_def)

lemma extends_calls:
  "extends x r (done_call r) []"
  "extends x r (finalContent r) []"
  "extends x r (asyncIterator r) []"
  by (simp_all add: extends_def keeps_def done_call_def finalContent_def asyncIterator_def nth_append)

lemma extends_next:
  assumes "k < length (iterators r)"
  shows "extends x r (r\<lparr>iterators := (iterators r)[k := snd (it_next (iterators r ! k))]\<rparr>) []"
proof -
  have s: "same_but_index (snd (it_next it)) it" for it
    by (simp add: it_next_def same_but_index_def split: option.splits)
  have f: "failed it \<Longrightarrow> failed (snd (it_next it))" for it
    using s [of it] by (simp add: same_but_index_def failed_def)
  show ?thesis
    using assms s f by (auto simp: extends_def keeps_def nth_list_update)
qed

lemma step_advances_gen:
  assumes base: "{KError, KContentDone, KEnd, KAbort} \<subseteq> K"
    and frame: "\<And>p. x = Frame p \<Longrightarrow> running r \<Longrightarrow> \<not> aborted r \<Longrightarrow>
                  emits (calm react) K r (process_frame react p r)"
  shows "advances (calm react) K r (step react x r)"
proof (cases x)
  case (Frame p)
  show ?thesis
  proof (cases "running r")
    case False then show ?thesis using Frame by (simp add: step_def advances_refl)
  next
    case True
    show ?thesis
    proof (cases "aborted r")
      case True
      have "emits (calm react) K r (emit react EvAbort r)"
        using base True by (intro emits_emit) auto
      then show ?thesis
        using Frame True \<open>running r\<close> by (simp add: step_def advances_stop emits_advances)
    next
      case False
      have "emits (calm react) K r (process_frame react p r)"
        using frame [OF Frame \<open>running r\<close> False] .
      then show ?thesis
        using Frame False \<open>running r\<close> by (simp add: step_def emits_advances)
    qed
  qed
next
  case SourceEnd
  show ?thesis
  proof (cases "running r")
    case False then show ?thesis using SourceEnd by (simp add: step_def advances_refl)
  next
    case True
    define r1 where "r1 = (if \<not> isComplete r
        then emit react (EvContentDone (contentSnapshot r))
               (r\<lparr>u_finalContent := Some (contentSnapshot r), isComplete := True\<rparr>)
        else r)"
    have "emits (calm react) K (r\<lparr>u_finalContent := Some (contentSnapshot r), isComplete := True\<rparr>)
            (emit react (EvContentDone (contentSnapshot r))
               (r\<lparr>u_finalContent := Some (contentSnapshot r), isComplete := True\<rparr>))"
      using base by (intro emits_emit) auto
    then have "emits (calm react) K r (emit react (EvContentDone (contentSnapshot r))
               (r\<lparr>u_finalContent := Some (contentSnapshot r), isComplete := True\<rparr>))"
      by (rule emits_field_update(4))
    then have "emits (calm react) K r r1" by (simp add: r1_def emits_refl)
    moreover have "emits (calm react) K r1 (emit react EvEnd r1)"
      using base by (intro emits_emit) auto
    ultimately have "emits (calm react) K r (emit react EvEnd r1)" by (rule emits_trans)
    then have "advances (calm react) K r ((emit react EvEnd r1)\<lparr>running := False\<rparr>)"
      by (intro advances_stop emits_advances)
    then show ?thesis using SourceEnd True by (simp add: step_def r1_def Let_def)
  qed
next
  case (SourceError e)
  show ?thesis
  proof (cases "running r")
    case False then show ?thesis using SourceError by (simp add: step_def advances_refl)
  next
    case True
    have "emits (calm react) K r (if aborted r then emit react EvAbort r else emit react (EvError e) r)"
      using base by (auto intro!: emits_emit)
    then have "advances (calm react) K r ((if aborted r then emit react EvAbort r
                               else emit react (EvError e) r)\<lparr>running := False\<rparr>)"
      by (intro advances_stop emits_advances)
    then show ?thesis using SourceError True by (simp add: step_def)
  qed
next
  case CallAbort
  have "follows (calm react) r (abort r) [EvAbort]" by (rule follows_abort)
  then have "emits (calm react) K r (abort r)" using base by (intro emitsI) auto
  then show ?thesis using CallAbort by (simp add: step_def emits_advances)
next
  case CallDone
  then show ?thesis using extends_calls(1) [of "calm react" r] by (auto simp: step_def intro: advancesI)
next
  case CallFinalContent
  then show ?thesis using extends_calls(2) [of "calm react" r] by (auto simp: step_def intro: advancesI)
next
  case CallIterator
  then show ?thesis using extends_calls(3) [of "calm react" r] by (auto simp: step_def intro: advancesI)
next
  case (CallNext k)
  then show ?thesis
    using extends_next [of k r "calm react"] by (auto simp: step_def advances_refl intro: advancesI)
qed

lemma step_advances:
  assumes "{KChunk, KContentDelta, KToolDelta, KError, KContentDone, KToolDone, KEnd, KAbort} \<subseteq> K"
  shows "advances (calm react) K r (step react x r)"
proof (rule step_advances_gen)
  show "{KError, KContentDone, KEnd, KAbort} \<subseteq> K" using assms by auto
  show "emits (calm react) K r (process_frame react p r)" for p
    using assms by (intro emits_process_frame) auto
qed

lemma step_advances_aborted:
  assumes "aborted r" and "{KError, KContentDone, KEnd, KAbort} \<subseteq> K"
  shows "advances (calm react) K r (step react x r)"
  using assms by (intro step_advances_gen) auto

lemma step_advances_no_chunk:
  assumes "\<And>c. x = Frame (Decoded c) \<Longrightarrow> \<not> running r \<or> aborted r"
  shows "advances (calm react) (- {KChunk}) r (step react x r)"
proof (rule step_advances_gen)
  show "{KError, KContentDone, KEnd, KAbort} \<subseteq> - {KChunk}" by auto
  show "emits (calm react) (- {KChunk}) r (process_frame react p r)"
    if "x = Frame p" "running r" "\<not> aborted r" for p
  proof (cases p)
    case (Malformed msg)
    have "emits (calm react) (- {KChunk}) r (emit react (EvError (SyntaxError msg)) r)"
      by (intro emits_emit_any) auto
    then show ?thesis using Malformed by (simp add: process_frame_def)
  next
    case (Decoded c)
    then show ?thesis using assms that by auto
  qed
qed

lemma advances_aborted: "advances x K r r' \<Longrightarrow> aborted r \<Longrightarrow> aborted r'"
  by (auto simp: advances_def extends_def)

lemma run_advances:
  assumes "{KChunk, KContentDelta, KToolDelta, KError, KContentDone, KToolDone, KEnd, KAbort} \<subseteq> K"
  shows "advances (calm react) K r (run react ops r)"
proof (induction ops arbitrary: r)
  case Nil show ?case by (simp add: advances_refl)
next
  case (Cons x ops)
  show ?case
    using advances_trans [OF step_advances [OF assms] Cons.IH] by simp
qed

lemma run_advances_aborted:
  assumes "{KError, KContentDone, KEnd, KAbort} \<subseteq> K"
  shows "aborted r \<Longrightarrow> advances (calm react) K r (run react ops r)"
proof (induction ops arbitrary: r)
  case Nil show ?case by (simp add: advances_refl)
next
  case (Cons x ops)
  have 1: "advances (calm react) K r (step react x r)"
    using Cons.prems assms by (rule step_advances_aborted)
  then have "aborted (step react x r)" using Cons.prems by (rule advances_aborted)
  then have "advances (calm react) K (step react x r) (run react ops (step react x r))" by (rule Cons.IH)
  then show ?case using advances_trans [OF 1] by simp
qed

section \<open>The done events of the loop over the tool calls\<close>

text \<open>
  With handlers that do not abort, the loop emits a done event for each populated index
  below the number of keys, in ascending order, and nothing else. When the keys are
  \<open>0, 1, ..., n - 1\<close> that is one done event for every tool call of the snapshot.
\<close>

lemma tool_done_loop_emitted_gen:
  "react = quiet \<Longrightarrow> emitted (tool_done_loop react i r) =
     emitted r @ List.map_filter (\<lambda>j. map_option (EvToolDone j) (map_of (toolCallsSnapshot r) j))
                   [i ..< length (toolCallsSnapshot r)]"
proof (induction react i r rule: tool_done_loop.induct)
  case (1 react i r)
  have q: "react = quiet" by (rule "1.prems")
  show ?case
  proof (cases "i < length (toolCallsSnapshot r)")
    case False
    then show ?thesis by (subst tool_done_loop.simps) (simp add: List.map_filter_def)
  next
    case True
    define r1 where "r1 = (case map_of (toolCallsSnapshot r) i of
                None \<Rightarrow> r | Some tc \<Rightarrow> emit react (EvToolDone i tc) r)"
    have snap: "toolCallsSnapshot r1 = toolCallsSnapshot r"
      by (simp add: r1_def q emit_quiet split: option.splits)
    have em: "emitted r1 = emitted r @ (case map_of (toolCallsSnapshot r) i of
                None \<Rightarrow> [] | Some tc \<Rightarrow> [EvToolDone i tc])"
      by (simp add: r1_def q emit_quiet notify_def split: option.splits)
    have step: "tool_done_loop react i r = tool_done_loop react (i + 1) r1"
      unfolding r1_def using True by (subst tool_done_loop.simps) simp
    have ih: "emitted (tool_done_loop react (i + 1) r1) =
       emitted r1 @ List.map_filter (\<lambda>j. map_option (EvToolDone j) (map_of (toolCallsSnapshot r1) j))
                   [i + 1 ..< length (toolCallsSnapshot r1)]"
      unfolding r1_def using q by (intro "1.IH" [OF True])
    have up: "[i ..< length (toolCallsSnapshot r)] = i # [i + 1 ..< length (toolCallsSnapshot r)]"
      using True by (simp add: upt_conv_Cons)
    show ?thesis
      unfolding step ih snap em up
      by (simp add: List.map_filter_def split: option.splits)
  qed
qed

lemma tool_done_loop_emitted:
  "emitted (tool_done_loop quiet i r) =
     emitted r @ List.map_filter (\<lambda>j. map_option (EvToolDone j) (map_of (toolCallsSnapshot r) j))
                   [i ..< length (toolCallsSnapshot r)]"
  by (rule tool_done_loop_emitted_gen) simp

lemma map_filter_contiguous:
  assumes "map fst xs = [k ..< k + length xs]"
  shows "List.map_filter (\<lambda>j. map_option (f j) (map_of xs j)) [k ..< k + length xs]
           = map (\<lambda>(j, v). f j v) xs"
  using assms
proof (induction xs arbitrary: k)
  case Nil
  show ?case by (simp add: List.map_filter_def)
next
  case (Cons x xs)
  obtain j v where x: "x = (j, v)" by (cases x)
  have "k < k + length (x # xs)" by simp
  from upt_conv_Cons [OF this]
  have up: "[k ..< k + length (x # xs)] = k # [Suc k ..< Suc k + length xs]"
    by simp
  have "map fst (x # xs) = k # [Suc k ..< Suc k + length xs]"
    using Cons.prems unfolding up .
  then have both: "fst x = k \<and> map fst xs = [Suc k ..< Suc k + length xs]"
    by (simp only: list.map list.inject)
  have jk: "j = k" using both by (simp only: x fst_conv)
  have rest: "map fst xs = [Suc k ..< Suc k + length xs]" using both by (rule conjunct2)
  have ih: "List.map_filter (\<lambda>j. map_option (f j) (map_of xs j)) [Suc k ..< Suc k + length xs]
           = map (\<lambda>(j, v). f j v) xs"
    by (rule Cons.IH [OF rest])
  have same: "List.map_filter (\<lambda>i. map_option (f i) (map_of (x # xs) i)) [Suc k ..< Suc k + length xs]
            = List.map_filter (\<lambda>i. map_option (f i) (map_of xs i)) [Suc k ..< Suc k + length xs]"
    unfolding List.map_filter_def x jk
    by (intro arg_cong [where f = "map _"] filter_cong map_cong) auto
  show ?case
    unfolding up
    using ih same by (simp add: List.map_filter_def x jk)
qed

lemma tool_done_loop_contiguous:
  assumes "map fst (toolCallsSnapshot r) = [0 ..< length (toolCallsSnapshot r)]"
  shows "emitted (tool_done_loop quiet 0 r) =
           emitted r @ map (\<lambda>(j, tc). EvToolDone j tc) (toolCallsSnapshot r)"
  using map_filter_contiguous [of "toolCallsSnapshot r" 0 EvToolDone] assms
  by (simp add: tool_done_loop_emitted)

section \<open>Evaluating the runner on examples\<close>

lemmas runner_eval = run_def step_def process_frame_def on_content_def on_tool_calls_def
  on_finish_def emit_def notify_def abort_def quiet_def new_runner_def Let_def fold_tool_call_def
  tool_done_loop.simps finalToolCalls_def List.map_filter_def content_frame_def tool_frame_def
  finish_frame_def no_choices_frame_def done_call_def finalContent_def asyncIterator_def
  it_next_def abort_on_chunk_def abort_on_error_def inform_def

section \<open>C1: what finalContent() returns\<close>

text \<open>
  C1 as stated fails when \<open>finalContent()\<close> is called after a frame with a finish signal
  that is not the last one: it returns at once the content accumulated up to that frame.
  Here the last frame carries a finish signal and the fragments concatenate to \<open>ab\<close>, and
  the call made between the two frames resolves with \<open>a\<close>.
\<close>

theorem final_content_early_finish_counterexample:
  "contents (run quiet [Frame (content_frame ''a'' (Some ''stop'')), CallFinalContent,
       Frame (content_frame ''b'' (Some ''stop'')), SourceEnd] new_runner) = [Resolved ''a''] \<and>
   carries_finish (content_frame ''b'' (Some ''stop'')) \<and>
   concat (map content_of [content_frame ''a'' (Some ''stop''), content_frame ''b'' (Some ''stop'')])
     = ''ab''"
  by (simp add: runner_eval carries_finish_def choice0_def content_of_def)

text \<open>
  C1, amended. Take frames that all decode to chunks with a \<open>choices\<close> array, the last of
  them carrying a finish signal, and let no handler call \<open>abort()\<close>. Called once the last
  frame has been processed, \<open>finalContent()\<close> resolves at once with the concatenation of
  all the \<open>choices[0].delta.content\<close> values in arrival order, before the stream has ended
  as well as after. Called earlier, after the frames \<open>qs @ ns\<close> where \<open>qs\<close> ends with the
  latest finish signal seen so far: if there is none (\<open>qs\<close> is empty) the promise is pending
  until the stream ends and then resolves with that concatenation; otherwise it resolves at
  once with the content of \<open>qs\<close>, and stays so.
\<close>

theorem final_content_at_call_time:
  assumes "\<forall>p \<in> set (qs @ ns @ ps). usable p"
    and "qs \<noteq> [] \<longrightarrow> carries_finish (last qs)"
    and "\<forall>p \<in> set ns. \<not> carries_finish p"
    and "ps \<noteq> []" and "carries_finish (last ps)"
  shows "contents (run quiet (map Frame (qs @ ns @ ps) @ [CallFinalContent]) new_runner)
           = [Resolved (concat (map content_of (qs @ ns @ ps)))] \<and>
         contents (run quiet (map Frame (qs @ ns @ ps) @ [CallFinalContent, SourceEnd]) new_runner)
           = [Resolved (concat (map content_of (qs @ ns @ ps)))] \<and>
         contents (run quiet (map Frame (qs @ ns @ ps) @ [SourceEnd, CallFinalContent]) new_runner)
           = [Resolved (concat (map content_of (qs @ ns @ ps)))] \<and>
         contents (run quiet (map Frame (qs @ ns) @ CallFinalContent # map Frame ps) new_runner)
           = [if qs = [] then Pending else Resolved (concat (map content_of qs))] \<and>
         contents (run quiet (map Frame (qs @ ns) @ CallFinalContent # map Frame ps @ [SourceEnd]) new_runner)
           = [Resolved (if qs = [] then concat (map content_of (qs @ ns @ ps))
                        else concat (map content_of qs))]"
proof -
  let ?all = "qs @ ns @ ps"
  let ?whole = "concat (map content_of ?all)"
  have n: "running new_runner" "\<not> aborted new_runner" "contents new_runner = []"
      "contentSnapshot new_runner = []" "u_finalContent new_runner = None"
      "\<not> isComplete new_runner"
    by (simp_all add: new_runner_def)
  have uq: "\<forall>p \<in> set qs. usable p" and un: "\<forall>p \<in> set ns. usable p \<and> \<not> carries_finish p"
    and up: "\<forall>p \<in> set ps. usable p" and umid: "\<forall>p \<in> set (qs @ ns). usable p"
    using assms(1,3) by auto
  have ne: "?all \<noteq> []" and l: "carries_finish (last ?all)" using assms(4,5) by simp_all

  let ?ra = "run quiet (map Frame ?all) new_runner"
  have ra: "running ?ra" "contents ?ra = []"
    using run_frames_quiet [OF n(1,2) assms(1)] n by simp_all
  have ra': "u_finalContent ?ra = Some ?whole" "isComplete ?ra"
    using run_frames_finish [OF n(1,2) assms(1) ne l] n by simp_all
  have a1: "contents (finalContent ?ra) = [Resolved ?whole]"
    using ra ra' by (simp add: finalContent_def)
  have "running (finalContent ?ra)" "isComplete (finalContent ?ra)"
    using ra ra' by (simp_all add: finalContent_def)
  then have a2: "contents (step quiet SourceEnd (finalContent ?ra)) = [Resolved ?whole]"
    using a1 by (simp add: step_SourceEnd_complete emit_quiet notify_def)
  have "contents (step quiet SourceEnd ?ra) = []" "u_finalContent (step quiet SourceEnd ?ra) = Some ?whole"
    using ra ra' by (simp_all add: step_SourceEnd_complete emit_quiet notify_def)
  then have a3: "contents (finalContent (step quiet SourceEnd ?ra)) = [Resolved ?whole]"
    by (simp add: finalContent_def)

  let ?rq = "run quiet (map Frame qs) new_runner"
  have rq: "running ?rq" "\<not> aborted ?rq"
    using run_frames_quiet [OF n(1,2) uq] by simp_all
  have rq': "u_finalContent ?rq = (if qs = [] then None else Some (concat (map content_of qs)))"
      "isComplete ?rq = (qs \<noteq> [])"
  proof -
    show "u_finalContent ?rq = (if qs = [] then None else Some (concat (map content_of qs)))"
    proof (cases "qs = []")
      case True then show ?thesis using n by simp
    next
      case False
      then show ?thesis
        using run_frames_finish [OF n(1,2) uq False] assms(2) n by simp
    qed
    show "isComplete ?rq = (qs \<noteq> [])"
    proof (cases "qs = []")
      case True then show ?thesis using n by simp
    next
      case False
      then show ?thesis
        using run_frames_finish [OF n(1,2) uq False] assms(2) by simp
    qed
  qed
  let ?rm = "run quiet (map Frame (qs @ ns)) new_runner"
  have rm_eq: "?rm = run quiet (map Frame ns) ?rq" by simp
  have rm: "running ?rm" "\<not> aborted ?rm" "contents ?rm = []"
      "contentSnapshot ?rm = concat (map content_of (qs @ ns))"
    using run_frames_quiet [OF n(1,2) umid] n by simp_all
  have rm': "u_finalContent ?rm = (if qs = [] then None else Some (concat (map content_of qs)))"
      "isComplete ?rm = (qs \<noteq> [])"
    using run_frames_no_finish [OF rq un] rq' unfolding rm_eq by simp_all
  let ?answer = "if qs = [] then Pending else Resolved (concat (map content_of qs))"
  let ?rc = "finalContent ?rm"
  have rc3: "contents ?rc = [?answer]"
  proof (cases "qs = []")
    case True
    then have "u_finalContent ?rm = None" "\<not> isComplete ?rm" using rm' by simp_all
    then show ?thesis using rm(3) True by (simp add: finalContent_def del: run_append)
  next
    case False
    then have "u_finalContent ?rm = Some (concat (map content_of qs))" using rm' by simp
    then show ?thesis using rm(3) False by (simp add: finalContent_def del: run_append)
  qed
  have rc: "running ?rc" "\<not> aborted ?rc" "contents ?rc = [?answer]"
      "contentSnapshot ?rc = concat (map content_of (qs @ ns))"
    using rm rc3 by (simp_all add: finalContent_def del: run_append)
  let ?rp = "run quiet (map Frame ps) ?rc"
  have rp: "running ?rp" "contents ?rp = [?answer]"
    using run_frames_quiet [OF rc(1,2) up] rc by simp_all
  have rp': "u_finalContent ?rp = Some ?whole" "isComplete ?rp"
    using run_frames_finish [OF rc(1,2) up assms(4,5)] rc by simp_all
  have b2: "contents (step quiet SourceEnd ?rp)
      = [Resolved (if qs = [] then ?whole else concat (map content_of qs))]"
    using rp rp' by (simp add: step_SourceEnd_complete emit_quiet notify_def)
  show ?thesis
    using a1 a2 a3 rp(2) b2
    by (simp add: step_def [of quiet CallFinalContent])
qed

theorem final_content_at_call_time_witness:
  "contents (run quiet (map Frame ([content_frame ''a'' (Some ''stop'')] @ [content_frame ''b'' None] @
       [content_frame ''c'' (Some ''stop'')]) @ [CallFinalContent]) new_runner) = [Resolved ''abc''] \<and>
   contents (run quiet (map Frame ([content_frame ''a'' (Some ''stop'')] @ [content_frame ''b'' None]) @
       CallFinalContent # map Frame [content_frame ''c'' (Some ''stop'')] @ [SourceEnd]) new_runner)
     = [Resolved ''a''] \<and>
   contents (run quiet (map Frame ([] @ [content_frame ''a'' None]) @
       CallFinalContent # map Frame [content_frame ''b'' (Some ''stop'')]) new_runner) = [Pending] \<and>
   contents (run quiet (map Frame ([] @ [content_frame ''a'' None]) @
       CallFinalContent # map Frame [content_frame ''b'' (Some ''stop'')] @ [SourceEnd]) new_runner)
     = [Resolved ''ab'']"
  using final_content_at_call_time
      [of "[content_frame ''a'' (Some ''stop'')]" "[content_frame ''b'' None]"
          "[content_frame ''c'' (Some ''stop'')]"]
    final_content_at_call_time
      [of "[]" "[content_frame ''a'' None]" "[content_frame ''b'' (Some ''stop'')]"]
  by (simp add: content_frame_def usable_def carries_finish_def choice0_def content_of_def)

section \<open>C8: the tool-call done events at a finish signal\<close>

text \<open>
  C8. The claim asks for one \<open>tool_calls.function.arguments.done\<close> event per populated
  index, also when only index 2 is populated. On that input the runner emits none: the
  events of the two frames are \<open>chunk\<close>, the tool-call delta, \<open>chunk\<close>. With the same
  tool call at index 0 the done event is there. \<open>finalToolCalls()\<close> holds the snapshot
  in both cases.
\<close>

theorem tool_done_missing_for_sparse_index:
  "map kind_of (emitted (run quiet
      [Frame (tool_frame 2 (Some ''call_1'') (Some ''f'') (Some ''{}'')),
       Frame (finish_frame ''tool_calls'')] new_runner))
     = [KChunk, KToolDelta, KChunk] \<and>
   map kind_of (emitted (run quiet
      [Frame (tool_frame 0 (Some ''call_1'') (Some ''f'') (Some ''{}'')),
       Frame (finish_frame ''tool_calls'')] new_runner))
     = [KChunk, KToolDelta, KChunk, KToolDone] \<and>
   finalToolCalls (run quiet
      [Frame (tool_frame 2 (Some ''call_1'') (Some ''f'') (Some ''{}'')),
       Frame (finish_frame ''tool_calls'')] new_runner)
     = Some [\<lparr>tc_id = ''call_1'', tc_type = ''function'',
              tc_function = \<lparr>fn_name = ''f'', fn_arguments = ''{}''\<rparr>\<rparr>]"
  by (simp add: runner_eval)

section \<open>Frames after a finish signal\<close>

lemma process_frame_quiet_aborted [simp]:
  "aborted (process_frame quiet p r) = aborted r"
proof (cases "usable p")
  case True then show ?thesis by (rule process_frame_quiet(1))
next
  case False
  then show ?thesis
    by (simp add: process_frame_unusable emit_quiet split: payload.splits)
qed

lemma emitsD:
  assumes "emits x K r r'"
  shows "emitted r' = emitted r @ new_events r r'" and "kind_of ` set (new_events r r') \<subseteq> K"
  using assms by (auto simp: emits_def follows_def new_events_def)

lemma advancesD:
  assumes "advances x K r r'"
  shows "emitted r' = emitted r @ new_events r r'" and "kind_of ` set (new_events r r') \<subseteq> K"
  using assms by (auto simp: advances_def extends_def new_events_def)



section \<open>C3: finalization after a finish signal\<close>




section \<open>The order of chunk and abort events\<close>

lemma chunkless_iff:
  "KChunk \<notin> kind_of ` set evs \<longleftrightarrow> list_all (\<lambda>e. kind_of e \<noteq> KChunk) evs"
  by (induction evs) auto

lemma no_chunk_trivial:
  "KChunk \<notin> kind_of ` set evs \<Longrightarrow> no_chunk_after_abort evs"
  unfolding chunkless_iff by (induction evs) auto

lemma no_chunk_append_chunkless:
  "no_chunk_after_abort xs \<Longrightarrow> KChunk \<notin> kind_of ` set ys \<Longrightarrow> no_chunk_after_abort (xs @ ys)"
  unfolding chunkless_iff by (induction xs) (auto simp: no_chunk_trivial chunkless_iff)

lemma no_chunk_append_abortless:
  "EvAbort \<notin> set xs \<Longrightarrow> no_chunk_after_abort (xs @ ys) = no_chunk_after_abort ys"
  by (induction xs) auto

lemma emit_abort_flag:
  "EvAbort \<in> set (emitted (emit react (EvChunk c) r)) \<Longrightarrow> EvAbort \<notin> set (emitted r) \<Longrightarrow>
   aborted (emit react (EvChunk c) r)"
  by (auto simp: emit_def notify_def abort_def Let_def split: if_splits)

lemma step_keeps_abort_order:
  assumes nc: "no_chunk_after_abort (emitted r)" and fl: "EvAbort \<in> set (emitted r) \<longrightarrow> aborted r"
  shows "no_chunk_after_abort (emitted (step react x r)) \<and>
         (EvAbort \<in> set (emitted (step react x r)) \<longrightarrow> aborted (step react x r))"
proof -
  obtain evs where ext: "extends (calm react) r (step react x r) evs"
    using step_advances [where K = UNIV and r = r and react = react and x = x]
    by (auto simp: advances_def)
  have flag: "EvAbort \<in> set (emitted (step react x r)) \<longrightarrow> aborted (step react x r)"
    using ext fl by (auto simp: extends_def)
  have "no_chunk_after_abort (emitted (step react x r))"
  proof (cases "\<exists>c. x = Frame (Decoded c) \<and> running r \<and> \<not> aborted r")
    case False
    then have "advances (calm react) (- {KChunk}) r (step react x r)"
      by (intro step_advances_no_chunk) auto
    then have "emitted (step react x r) = emitted r @ new_events r (step react x r)"
        "KChunk \<notin> kind_of ` set (new_events r (step react x r))"
      using advancesD [of "calm react" "- {KChunk}" r "step react x r"] by auto
    then show ?thesis
      using no_chunk_append_chunkless [OF nc, of "new_events r (step react x r)"] by simp
  next
    case True
    then obtain c where x: "x = Frame (Decoded c)" and live: "running r" "\<not> aborted r" by auto
    let ?r1 = "emit react (EvChunk c) r"
    have "emits (calm react) (- {KChunk}) ?r1 (process_frame react (Decoded c) r)"
      by (intro emits_after_chunk) auto
    then have rest: "emitted (process_frame react (Decoded c) r)
          = emitted ?r1 @ new_events ?r1 (process_frame react (Decoded c) r)"
        "KChunk \<notin> kind_of ` set (new_events ?r1 (process_frame react (Decoded c) r))"
      using emitsD [of "calm react" "- {KChunk}" ?r1 "process_frame react (Decoded c) r"] by auto
    have noab: "EvAbort \<notin> set (emitted r)" using fl live by auto
    let ?tail = "(if react (EvChunk c) then [EvAbort] else []) @
                   new_events ?r1 (process_frame react (Decoded c) r)"
    have em: "emitted (process_frame react (Decoded c) r) = emitted r @ EvChunk c # ?tail"
      using rest(1) by (simp add: emitted_emit)
    have "KChunk \<notin> kind_of ` set ?tail" using rest(2) by auto
    then have "no_chunk_after_abort (EvChunk c # ?tail)"
      by (simp add: no_chunk_trivial)
    then have "no_chunk_after_abort (emitted r @ EvChunk c # ?tail)"
      using no_chunk_append_abortless [OF noab, of "EvChunk c # ?tail"] by blast
    then show ?thesis using em x live by (simp add: step_Frame_live)
  qed
  then show ?thesis using flag by simp
qed

lemma run_keeps_abort_order:
  "no_chunk_after_abort (emitted r) \<Longrightarrow> (EvAbort \<in> set (emitted r) \<longrightarrow> aborted r) \<Longrightarrow>
   no_chunk_after_abort (emitted (run react ops r))"
proof (induction ops arbitrary: r)
  case Nil then show ?case by simp
next
  case (Cons x ops)
  have "no_chunk_after_abort (emitted (step react x r))"
      "EvAbort \<in> set (emitted (step react x r)) \<longrightarrow> aborted (step react x r)"
    using step_keeps_abort_order [OF Cons.prems] by simp_all
  then have "no_chunk_after_abort (emitted (run react ops (step react x r)))"
    by (rule Cons.IH)
  then show ?case by simp
qed

lemma settle_all_settled: "p \<noteq> Pending \<Longrightarrow> settle_all evs p = p"
  by (induction evs) (cases p; simp)+

section \<open>C5: events after abort()\<close>

text \<open>
  C5 as stated fails when a handler calls \<open>abort()\<close> while a frame is being processed:
  a \<open>chunk\<close> handler that aborts is followed by the \<open>content.delta\<close> of the same frame.
  And a \<open>done()\<close> called after the loop has stopped on the abort is never rejected: it
  stays pending.
\<close>

theorem abort_in_handler_counterexample:
  "map kind_of (emitted (run abort_on_chunk [Frame (content_frame ''Hello'' None)] new_runner))
     = [KChunk, KAbort, KContentDelta] \<and>
   dones (run quiet [CallAbort, Frame (content_frame ''Hello'' None), CallDone, SourceEnd] new_runner)
     = [Pending]"
  by (simp add: runner_eval)

text \<open>
  C5, amended. In every run, whatever the handlers do, no \<open>chunk\<close> event is emitted after
  an \<open>abort\<close> event. From a state in which the token is signaled (after \<open>abort()\<close> was
  called between two frames, or once the frame during which it was called is finished)
  no \<open>chunk\<close> and no \<open>content.delta\<close> event is emitted any more. A \<open>done()\<close> promise
  that is pending when \<open>abort()\<close> is called is rejected with the abort error and stays so.
\<close>

theorem abort_monotonicity:
  "no_chunk_after_abort (emitted (run react ops new_runner)) \<and>
   (aborted r \<longrightarrow>
      (\<forall>e \<in> set (new_events r (run react ops r)). kind_of e \<noteq> KChunk \<and> kind_of e \<noteq> KContentDelta)) \<and>
   (\<forall>k < length (dones r). dones r ! k = Pending \<longrightarrow>
      dones (run react ops (abort r)) ! k = Rejected APIUserAbortError)"
proof (intro conjI impI allI)
  show "no_chunk_after_abort (emitted (run react ops new_runner))"
    by (rule run_keeps_abort_order) (simp_all add: new_runner_def)
next
  assume "aborted r"
  then have "advances (calm react) {KError, KContentDone, KEnd, KAbort} r (run react ops r)"
    by (intro run_advances_aborted) simp
  then have "kind_of ` set (new_events r (run react ops r)) \<subseteq> {KError, KContentDone, KEnd, KAbort}"
    by (rule advancesD(2))
  then show "\<forall>e \<in> set (new_events r (run react ops r)). kind_of e \<noteq> KChunk \<and> kind_of e \<noteq> KContentDelta"
    by auto
next
  fix k assume k: "k < length (dones r)" and p: "dones r ! k = Pending"
  obtain evs where ext: "extends (calm react) (abort r) (run react ops (abort r)) evs"
    using run_advances [where K = UNIV and r = "abort r" and react = react and ops = ops]
    by (auto simp: advances_def)
  have a: "dones (abort r) ! k = Rejected APIUserAbortError"
    using k p by (simp add: abort_def notify_def)
  have "k < length (dones (abort r))" using k by (simp add: abort_def notify_def)
  then have "dones (run react ops (abort r)) ! k = dones (abort r) ! k"
    using ext a by (simp add: extends_def keeps_def)
  then show "dones (run react ops (abort r)) ! k = Rejected APIUserAbortError"
    using a by simp
qed

theorem abort_monotonicity_witness:
  "no_chunk_after_abort (emitted (run abort_on_chunk
      [Frame (content_frame ''Hello'' None), Frame (content_frame '' world'' None), SourceEnd] new_runner)) \<and>
   map kind_of (new_events (abort (done_call new_runner))
      (run abort_on_chunk [Frame (content_frame ''Hello'' None), Frame (content_frame '' world'' None), SourceEnd]
         (abort (done_call new_runner)))) = [KAbort] \<and>
   dones (run abort_on_chunk [Frame (content_frame ''Hello'' None), Frame (content_frame '' world'' None), SourceEnd]
         (abort (done_call new_runner))) ! 0 = Rejected APIUserAbortError"
  using abort_monotonicity [of abort_on_chunk
      "[Frame (content_frame ''Hello'' None), Frame (content_frame '' world'' None), SourceEnd]"
      "abort (done_call new_runner)"]
    abort_monotonicity [of abort_on_chunk
      "[Frame (content_frame ''Hello'' None), Frame (content_frame '' world'' None), SourceEnd]"
      "done_call new_runner"]
  by (simp add: runner_eval new_events_def)

section \<open>The events of the completion runner\<close>

lemma c_settle_all_simps [simp]:
  "c_settle_all [] p = p"
  "c_settle_all (ev # evs) p = c_settle_all evs (c_settle_done ev p)"
  "c_settle_all (evs @ evs') p = c_settle_all evs' (c_settle_all evs p)"
  by (simp_all add: c_settle_all_def)

lemma c_extends_refl: "c_extends r r []"
  by (simp add: c_extends_def)

lemma c_extends_trans:
  "c_extends r r' evs \<Longrightarrow> c_extends r' r'' evs' \<Longrightarrow> c_extends r r'' (evs @ evs')"
  by (auto simp: c_extends_def)

lemma c_advances_refl: "c_advances r r"
  using c_extends_refl by (auto simp: c_advances_def)

lemma c_advances_trans: "c_advances r r' \<Longrightarrow> c_advances r' r'' \<Longrightarrow> c_advances r r''"
  using c_extends_trans by (auto simp: c_advances_def) blast

lemma c_advances_notify: "c_advances r (c_notify ev r)"
proof -
  have "c_extends r (c_notify ev r) [ev]" by (simp add: c_extends_def c_notify_def)
  then show ?thesis by (auto simp: c_advances_def)
qed

lemma c_advances_field:
  "c_advances (r\<lparr>c_aborted := b\<rparr>) r' \<Longrightarrow> c_advances r r'"
  "c_advances (r\<lparr>textSnapshot := t\<rparr>) r' \<Longrightarrow> c_advances r r'"
  "c_advances (r\<lparr>u_finalText := f, c_isComplete := c\<rparr>) r' \<Longrightarrow> c_advances r r'"
  "c_advances r r' \<Longrightarrow> c_advances r (r'\<lparr>c_running := False\<rparr>)"
  by (simp_all add: c_advances_def c_extends_def)

lemma c_advances_abort: "c_advances r (c_abort r)"
  unfolding c_abort_def by (rule c_advances_field(1)) (rule c_advances_notify)

lemma c_emit_calm:
  assumes "c_calm react"
  shows "c_emit react ev r = (if react ev then c_abort (c_notify ev r) else c_notify ev r)"
proof (cases "react ev")
  case False then show ?thesis by (simp add: c_emit_def)
next
  case True
  then have "\<not> c_terminal ev" using assms by (auto simp: c_calm_def)
  then show ?thesis
    using True by (cases ev) (simp_all add: c_emit_def c_inform_def c_notify_def c_abort_def)
qed

lemma c_advances_emit: "c_calm react \<Longrightarrow> c_advances r (c_emit react ev r)"
  using c_advances_trans [OF c_advances_notify c_advances_abort]
  by (simp add: c_emit_calm c_advances_notify)

lemma c_advances_on_text: "c_calm react \<Longrightarrow> c_advances r (c_on_text react tx r)"
proof -
  assume calm: "c_calm react"
  have "c_advances r (c_emit react (CEvTextDelta t s) (r\<lparr>textSnapshot := s\<rparr>))" for t s
    by (rule c_advances_field(2)) (rule c_advances_emit [OF calm])
  then show ?thesis
    unfolding c_on_text_def Let_def by (auto simp: c_advances_refl split: option.splits)
qed

lemma c_advances_on_finish: "c_calm react \<Longrightarrow> c_advances r (c_on_finish react fr r)"
proof -
  assume calm: "c_calm react"
  have "c_advances r (c_emit react (CEvTextDone (textSnapshot r))
             (r\<lparr>u_finalText := Some (textSnapshot r), c_isComplete := True\<rparr>))"
    by (rule c_advances_field(3)) (rule c_advances_emit [OF calm])
  then show ?thesis by (simp add: c_on_finish_def c_advances_refl)
qed

lemma c_advances_process_frame:
  assumes calm: "c_calm react"
  shows "c_advances r (c_process_frame react p r)"
proof (cases p)
  case (CMalformed msg)
  then show ?thesis by (simp add: c_process_frame_def c_advances_emit [OF calm])
next
  case (CDecoded c)
  define r1 where "r1 = c_emit react (CEvChunk c) r"
  have 1: "c_advances r r1" by (simp add: r1_def c_advances_emit [OF calm])
  show ?thesis
  proof (cases "c_choices c")
    case None
    have "c_advances r (c_emit react (CEvError (TypeError ''choices'')) r1)"
      using 1 c_advances_emit [OF calm] c_advances_trans by blast
    then show ?thesis using CDecoded None by (simp add: c_process_frame_def r1_def)
  next
    case (Some chs)
    have "c_advances r (c_on_finish react fr (c_on_text react tx r1))" for fr tx
      using 1 c_advances_on_text [OF calm] c_advances_on_finish [OF calm] c_advances_trans by blast
    then show ?thesis
      using CDecoded Some by (simp add: c_process_frame_def r1_def Let_def)
  qed
qed

lemma c_advances_step:
  assumes calm: "c_calm react"
  shows "c_advances r (c_step react x r)"
proof (cases x)
  case (CFrame p)
  then show ?thesis
    by (simp add: c_step_def c_advances_refl c_advances_process_frame [OF calm] c_advances_field(4)
        c_advances_emit [OF calm])
next
  case CSourceEnd
  define r1 where "r1 = (if \<not> c_isComplete r
      then c_emit react (CEvTextDone (textSnapshot r))
             (r\<lparr>u_finalText := Some (textSnapshot r), c_isComplete := True\<rparr>)
      else r)"
  have "c_advances r (c_emit react (CEvTextDone (textSnapshot r))
             (r\<lparr>u_finalText := Some (textSnapshot r), c_isComplete := True\<rparr>))"
    by (rule c_advances_field(3)) (rule c_advances_emit [OF calm])
  then have "c_advances r r1" by (simp add: r1_def c_advances_refl)
  then have "c_advances r ((c_emit react CEvEnd r1)\<lparr>c_running := False\<rparr>)"
    using c_advances_emit [OF calm] c_advances_trans c_advances_field(4) by blast
  then show ?thesis using CSourceEnd by (simp add: c_step_def c_advances_refl r1_def Let_def)
next
  case (CSourceError e)
  then show ?thesis
    by (simp add: c_step_def c_advances_refl c_advances_field(4) c_advances_emit [OF calm])
next
  case CCallAbort
  then show ?thesis by (simp add: c_step_def c_advances_abort)
next
  case CCallDone
  have "c_extends r (c_done_call r) []"
    by (simp add: c_extends_def c_done_call_def nth_append)
  then show ?thesis using CCallDone by (auto simp: c_step_def c_advances_def)
qed

lemma c_run_Nil [simp]: "c_run react [] r = r"
  by (simp add: c_run_def)

lemma c_run_Cons [simp]: "c_run react (x # xs) r = c_run react xs (c_step react x r)"
  by (simp add: c_run_def)

lemma c_advances_run: "c_calm react \<Longrightarrow> c_advances r (c_run react ops r)"
proof (induction ops arbitrary: r)
  case Nil show ?case by (simp add: c_advances_refl)
next
  case (Cons x ops)
  show ?case using c_advances_trans [OF c_advances_step [OF Cons.prems] Cons.IH [OF Cons.prems]] by simp
qed

lemma settle_all_first_signal: "settle_all evs Pending = first_signal evs"
proof (induction evs)
  case Nil show ?case by simp
next
  case (Cons ev evs)
  then show ?case by (cases ev) (simp_all add: settle_all_settled)
qed

lemma c_settle_all_settled: "p \<noteq> Pending \<Longrightarrow> c_settle_all evs p = p"
  by (induction evs) (cases p; simp)+

lemma c_settle_all_first_signal: "c_settle_all evs Pending = c_first_signal evs"
proof (induction evs)
  case Nil show ?case by simp
next
  case (Cons ev evs)
  then show ?case by (cases ev) (simp_all add: c_settle_all_settled)
qed

lemmas c_runner_eval = c_run_def c_step_def c_process_frame_def c_on_text_def c_on_finish_def
  c_emit_def c_inform_def c_notify_def c_abort_def c_quiet_def new_c_runner_def c_done_call_def
  text_frame_def c_abort_on_error_def Let_def

lemma calm_quiet [simp]: "calm quiet" "c_calm c_quiet"
  by (simp_all add: calm_def quiet_def c_calm_def c_quiet_def)

lemma calm_abort_on_chunk [simp]: "calm abort_on_chunk"
proof -
  have "terminal ev \<Longrightarrow> kind_of ev \<noteq> KChunk" for ev by (cases ev) simp_all
  then show ?thesis by (simp add: calm_def abort_on_chunk_def)
qed

section \<open>A handler of error that calls abort()\<close>

text \<open>
  When a handler of the caller for \<open>error\<close> calls \<open>abort()\<close>, the \<open>abort\<close> event is
  emitted inside the emission of \<open>error\<close>, and the listeners that the runner registered
  after that handler see it first. For a malformed frame the events emitted are \<open>error\<close>
  and then \<open>abort\<close>; a pending \<open>done()\<close> promise is rejected with the abort error, in
  both runners, and \<open>next()\<close> on an iterator throws the SyntaxError of the frame.
\<close>

lemma abort_inside_error_handler:
  "map kind_of (emitted (run abort_on_error [CallDone, CallIterator, Frame (Malformed ''x'')] new_runner))
     = [KError, KAbort]"
  "dones (run abort_on_error [CallDone, CallIterator, Frame (Malformed ''x'')] new_runner)
     = [Rejected APIUserAbortError]"
  "fst (it_next (iterators (run abort_on_error [CallDone, CallIterator, Frame (Malformed ''x'')]
       new_runner) ! 0)) = Throws (SyntaxError ''x'')"
  "c_dones (c_run c_abort_on_error [CCallDone, CFrame (CMalformed ''x'')] new_c_runner)
     = [Rejected APIUserAbortError]"
  by (simp_all add: runner_eval c_runner_eval)

section \<open>C4: when done() settles\<close>

text \<open>
  C4 as stated fails for a runner that is already aborted or errored: \<open>done()\<close> looks at
  \<open>isComplete\<close> only, and then waits for a further event. Called after the loop has
  stopped on an abort, or after the frame source has failed, it stays pending, in both
  runners.
\<close>

theorem done_after_abort_or_error_counterexample:
  "dones (run quiet [CallAbort, Frame (content_frame ''Hello'' None), CallDone] new_runner) = [Pending] \<and>
   dones (run quiet [SourceError (GenericError ''network''), CallDone] new_runner) = [Pending] \<and>
   c_dones (c_run c_quiet [CCallAbort, CFrame (text_frame ''Hello'' None), CCallDone] new_c_runner) = [Pending] \<and>
   c_dones (c_run c_quiet [CSourceError (GenericError ''network''), CCallDone] new_c_runner) = [Pending]"
  by (simp add: runner_eval c_runner_eval)

text \<open>
  C4, amended. In both runners, let no handler of the caller for \<open>end\<close>, \<open>error\<close> or
  \<open>abort\<close> call \<open>abort()\<close> itself (handlers of the other events may), and let
  \<open>done()\<close> be called from outside the handlers. Then \<open>done()\<close> called when
  \<open>isComplete\<close> is set resolves at once. Called before, its promise is
  settled by the first \<open>end\<close>, \<open>error\<close> or \<open>abort\<close> event emitted after the call,
  whatever happens then: it resolves on \<open>end\<close>, rejects with the error value on \<open>error\<close>
  (a recovered per-frame error included), rejects with the abort error on \<open>abort\<close>, and
  stays pending as long as none is emitted.
\<close>

theorem done_settles_on_first_signal:
  assumes "calm react" and "c_calm creact"
  shows "dones (run react ops (done_call r)) ! length (dones r) =
     (if isComplete r then Resolved ()
      else first_signal (new_events (done_call r) (run react ops (done_call r)))) \<and>
   c_dones (c_run creact cops (c_done_call cr)) ! length (c_dones cr) =
     (if c_isComplete cr then Resolved ()
      else c_first_signal (c_new_events (c_done_call cr) (c_run creact cops (c_done_call cr))))"
proof
  let ?r1 = "done_call r"
  obtain evs where ext: "extends True ?r1 (run react ops ?r1) evs"
    using run_advances [where K = UNIV and r = ?r1 and react = react and ops = ops] assms(1)
    by (auto simp: advances_def)
  have ne: "new_events ?r1 (run react ops ?r1) = evs"
    using ext by (simp add: extends_def new_events_def)
  have k: "length (dones r) < length (dones ?r1)" by (simp add: done_call_def)
  have "dones (run react ops ?r1) ! length (dones r) = settle_all evs (dones ?r1 ! length (dones r))"
    using ext k by (simp add: extends_def)
  moreover have "dones ?r1 ! length (dones r) = (if isComplete r then Resolved () else Pending)"
    by (simp add: done_call_def)
  ultimately show "dones (run react ops ?r1) ! length (dones r) =
     (if isComplete r then Resolved () else first_signal (new_events ?r1 (run react ops ?r1)))"
    using ne by (simp add: settle_all_settled settle_all_first_signal)
next
  let ?r1 = "c_done_call cr"
  obtain evs where ext: "c_extends ?r1 (c_run creact cops ?r1) evs"
    using c_advances_run [OF assms(2), of ?r1 cops] by (auto simp: c_advances_def)
  have ne: "c_new_events ?r1 (c_run creact cops ?r1) = evs"
    using ext by (simp add: c_extends_def c_new_events_def)
  have k: "length (c_dones cr) < length (c_dones ?r1)" by (simp add: c_done_call_def)
  have "c_dones (c_run creact cops ?r1) ! length (c_dones cr)
          = c_settle_all evs (c_dones ?r1 ! length (c_dones cr))"
    using ext k by (simp add: c_extends_def)
  moreover have "c_dones ?r1 ! length (c_dones cr) = (if c_isComplete cr then Resolved () else Pending)"
    by (simp add: c_done_call_def)
  ultimately show "c_dones (c_run creact cops ?r1) ! length (c_dones cr) =
     (if c_isComplete cr then Resolved ()
      else c_first_signal (c_new_events ?r1 (c_run creact cops ?r1)))"
    using ne by (simp add: c_settle_all_settled c_settle_all_first_signal)
qed

theorem done_settles_on_first_signal_witness:
  "calm abort_on_chunk \<and> c_calm c_quiet \<and>
   dones (run abort_on_chunk [Frame (Malformed ''x''), Frame (content_frame ''Hello'' None), SourceEnd]
       (done_call new_runner)) ! length (dones new_runner) = Rejected (SyntaxError ''x'') \<and>
   c_dones (c_run c_quiet [CFrame (text_frame ''Hello'' (Some ''stop'')), CSourceEnd]
       (c_done_call new_c_runner)) ! length (c_dones new_c_runner) = Resolved ()"
  using done_settles_on_first_signal
    [where react = abort_on_chunk
       and ops = "[Frame (Malformed ''x''), Frame (content_frame ''Hello'' None), SourceEnd]"
       and r = new_runner and creact = c_quiet
       and cops = "[CFrame (text_frame ''Hello'' (Some ''stop'')), CSourceEnd]" and cr = new_c_runner]
  by (simp add: runner_eval c_runner_eval new_events_def c_new_events_def)

section \<open>Iterators and recorded errors\<close>

lemma failed_observe_all: "failed it \<Longrightarrow> failed (observe_all evs it)"
  by (induction evs arbitrary: it) (simp_all add: failed_iter_on)

lemma failed_same: "same_but_index a b \<Longrightarrow> failed b \<Longrightarrow> failed a"
  by (simp add: same_but_index_def failed_def)

lemma failed_after_error: "failed (iter_on (EvError e) it)"
  by (simp add: failed_def)

lemma it_error_observe_all:
  "it_error (observe_all evs it) = last_failure (it_error it) evs"
proof (induction evs arbitrary: it)
  case Nil show ?case by simp
next
  case (Cons ev evs)
  then show ?case by (cases ev) simp_all
qed

lemma it_next_failed:
  "it_error it = Some e \<Longrightarrow> it_isComplete it \<Longrightarrow> it_next it = (Throws e, it)"
  by (simp add: it_next_def)

lemma iterators_emit:
  "iterators (emit react ev r) =
     map (\<lambda>it. if react ev \<and> ev \<noteq> EvAbort then iter_on ev (iter_on EvAbort it) else iter_on ev it)
       (iterators r)"
  by (auto simp: emit_def inform_def notify_def abort_def)

lemma failed_after_emit_error:
  "k < length (iterators r) \<Longrightarrow> failed (iterators (emit react (EvError e) r) ! k)"
  by (simp add: iterators_emit failed_def)

lemma length_iterators_emit [simp]: "length (iterators (emit react ev r)) = length (iterators r)"
  by (simp add: iterators_emit)

lemma failed_after_unusable:
  assumes "\<not> usable p" and "k < length (iterators r)"
  shows "failed (iterators (process_frame react p r) ! k)"
  using assms by (simp add: process_frame_unusable failed_after_emit_error split: payload.splits)

lemma run_frames_any:
  assumes "running r" and "\<not> aborted r"
  shows "running (run quiet (map Frame ps) r) \<and> \<not> aborted (run quiet (map Frame ps) r) \<and>
         contentSnapshot (run quiet (map Frame ps) r) = contentSnapshot r @ concat (map content_of ps) \<and>
         (ps \<noteq> [] \<and> carries_finish (last ps) \<longrightarrow>
            u_finalContent (run quiet (map Frame ps) r) = Some (contentSnapshot r @ concat (map content_of ps)))"
  using assms
proof (induction ps arbitrary: r rule: rev_induct)
  case Nil then show ?case by simp
next
  case (snoc p ps)
  let ?r1 = "run quiet (map Frame ps) r"
  have r1: "running ?r1" "\<not> aborted ?r1"
      "contentSnapshot ?r1 = contentSnapshot r @ concat (map content_of ps)"
    using snoc.IH [OF snoc.prems] by simp_all
  show ?case
    using r1 by (simp add: step_Frame_live process_frame_content process_frame_final)
qed

section \<open>C10: the iterator after a per-frame error\<close>

text \<open>
  C10 as stated fails in two places. A later error replaces the stored one: after a
  malformed frame and then a chunk without \<open>choices\<close>, \<open>next()\<close> throws the TypeError of
  the second, not the SyntaxError of the first. And a \<open>finalContent()\<close> call that is
  waiting when the error event is emitted is rejected with it; it does not resolve.
\<close>

theorem iterator_error_counterexample:
  "fst (it_next (iterators (run quiet [CallIterator, Frame (Malformed ''x'')] new_runner) ! 0))
     = Throws (SyntaxError ''x'') \<and>
   fst (it_next (iterators (run quiet [CallIterator, Frame (Malformed ''x''), Frame no_choices_frame]
       new_runner) ! 0))
     = Throws (TypeError ''choices'') \<and>
   contents (run quiet [CallFinalContent, Frame (Malformed ''x''),
       Frame (content_frame ''Hello'' (Some ''stop'')), SourceEnd] new_runner)
     = [Rejected (SyntaxError ''x'')]"
  by (simp add: runner_eval)

text \<open>
  C10, amended. Let a frame that is malformed JSON or has no \<open>choices\<close> array be processed
  while an iterator is attached. Whatever follows and whatever the handlers do, every later
  \<open>next()\<close> on that iterator (called from outside the handlers) throws and yields no
  chunk. When no handler of the caller for
  \<open>end\<close>, \<open>error\<close> or \<open>abort\<close> calls \<open>abort()\<close>, the error thrown is the one of the
  most recent \<open>error\<close> or \<open>abort\<close> event (that of the frame, unless a later one has
  replaced it). The loop goes on: with no abort, the content snapshot grows with the later
  frames, and a \<open>finalContent()\<close> called after a later finish signal resolves with the
  final value.
\<close>

theorem error_ends_iteration:
  assumes "running r" and "\<not> aborted r" and "\<not> usable p" and "k < length (iterators r)"
  shows "(\<exists>e. it_next (iterators (run react ops (step react (Frame p) r)) ! k)
                = (Throws e, iterators (run react ops (step react (Frame p) r)) ! k) \<and>
              (calm react \<longrightarrow>
                 last_failure (it_error (iterators r ! k))
                   (new_events r (run react ops (step react (Frame p) r))) = Some e)) \<and>
         running (step quiet (Frame p) r) \<and>
         contentSnapshot (run quiet (map Frame ps) (step quiet (Frame p) r))
           = contentSnapshot r @ concat (map content_of ps) \<and>
         (ps \<noteq> [] \<and> carries_finish (last ps) \<longrightarrow>
            last (contents (finalContent (run quiet (map Frame ps) (step quiet (Frame p) r))))
              = Resolved (contentSnapshot r @ concat (map content_of ps)))"
proof (intro conjI)
  let ?r1 = "step react (Frame p) r"
  let ?r2 = "run react ops ?r1"
  have r1: "?r1 = process_frame react p r" using assms(1,2) by (rule step_Frame_live)
  have k1: "k < length (iterators ?r1)"
    using assms(3,4) by (simp add: r1 process_frame_unusable split: payload.splits)
  have f1: "failed (iterators ?r1 ! k)"
    unfolding r1 using assms(3,4) by (rule failed_after_unusable)
  obtain evs2 where e2: "extends (calm react) ?r1 ?r2 evs2"
    using run_advances [where K = UNIV and r = ?r1 and react = react and ops = ops]
    by (auto simp: advances_def)
  have f2: "failed (iterators ?r2 ! k)"
    using e2 k1 f1 by (simp add: extends_def keeps_def)
  obtain err where err: "it_error (iterators ?r2 ! k) = Some err" "it_isComplete (iterators ?r2 ! k)"
    using f2 by (auto simp: failed_def)
  have throws: "it_next (iterators ?r2 ! k) = (Throws err, iterators ?r2 ! k)"
    using err by (rule it_next_failed)
  have "last_failure (it_error (iterators r ! k)) (new_events r ?r2) = Some err" if calm: "calm react"
  proof -
    obtain evs where e: "extends True r ?r2 evs"
      using run_advances [where K = UNIV and r = r and react = react and ops = "Frame p # ops"] calm
      by (auto simp: advances_def)
    have ne: "new_events r ?r2 = evs" using e by (simp add: extends_def new_events_def)
    have "same_but_index (iterators ?r2 ! k) (observe_all evs (iterators r ! k))"
      using e assms(4) by (simp add: extends_def)
    then have "it_error (iterators ?r2 ! k) = last_failure (it_error (iterators r ! k)) evs"
      by (simp add: same_but_index_def it_error_observe_all)
    then show ?thesis using err(1) ne by simp
  qed
  then show "\<exists>e. it_next (iterators ?r2 ! k) = (Throws e, iterators ?r2 ! k) \<and>
              (calm react \<longrightarrow> last_failure (it_error (iterators r ! k)) (new_events r ?r2) = Some e)"
    using throws by blast
next
  show "running (step quiet (Frame p) r)"
    using assms(1,2) by (simp add: step_Frame_live)
next
  let ?q1 = "step quiet (Frame p) r"
  have q1: "running ?q1" "\<not> aborted ?q1" "contentSnapshot ?q1 = contentSnapshot r"
    using assms(1,2,3) by (simp_all add: step_Frame_live process_frame_content content_of_unusable)
  show "contentSnapshot (run quiet (map Frame ps) ?q1) = contentSnapshot r @ concat (map content_of ps)"
    using run_frames_any [OF q1(1,2), of ps] q1(3) by simp
  show "ps \<noteq> [] \<and> carries_finish (last ps) \<longrightarrow>
            last (contents (finalContent (run quiet (map Frame ps) ?q1)))
              = Resolved (contentSnapshot r @ concat (map content_of ps))"
    using run_frames_any [OF q1(1,2), of ps] q1(3) by (simp add: finalContent_def)
qed

theorem error_ends_iteration_witness:
  "it_next (iterators (run quiet [Frame (content_frame ''Hello'' (Some ''stop'')), SourceEnd]
       (step quiet (Frame (Malformed ''x'')) (asyncIterator new_runner))) ! 0)
     = (Throws (SyntaxError ''x''),
        iterators (run quiet [Frame (content_frame ''Hello'' (Some ''stop'')), SourceEnd]
          (step quiet (Frame (Malformed ''x'')) (asyncIterator new_runner))) ! 0) \<and>
   last_failure (it_error (iterators (asyncIterator new_runner) ! 0))
     (new_events (asyncIterator new_runner)
        (run quiet [Frame (content_frame ''Hello'' (Some ''stop'')), SourceEnd]
          (step quiet (Frame (Malformed ''x'')) (asyncIterator new_runner)))) = Some (SyntaxError ''x'') \<and>
   last (contents (finalContent (run quiet (map Frame [content_frame ''Hello'' (Some ''stop'')])
       (step quiet (Frame (Malformed ''x'')) (asyncIterator new_runner))))) = Resolved ''Hello''"
  using error_ends_iteration
    [where r = "asyncIterator new_runner" and p = "Malformed ''x''" and k = 0 and react = quiet
       and ops = "[Frame (content_frame ''Hello'' (Some ''stop'')), SourceEnd]"
       and ps = "[content_frame ''Hello'' (Some ''stop'')]"]
  by (simp add: runner_eval usable_def new_events_def carries_finish_def choice0_def content_of_def)

section \<open>Facts about the parser and the read loop\<close>

lemmas parser_eval = parse_def newline_def empty_event_def set_field_def trim_def is_space_def
  parseInt_def is_digit_def Let_def

subsection \<open>Splitting the input of the parser\<close>

lemma split_on_not_Nil [simp]: "split_on c s \<noteq> []"
  by (induction s) (auto split: list.splits)

lemma split_on_append:
  "split_on c (xs @ ys) = butlast (split_on c xs) @ split_on c (last (split_on c xs) @ ys)"
proof (induction xs)
  case Nil show ?case by simp
next
  case (Cons x xs)
  obtain l ls where s: "split_on c xs = l # ls" by (cases "split_on c xs") auto
  obtain l' ls' where s': "split_on c (last (split_on c xs) @ ys) = l' # ls'"
    by (cases "split_on c (last (split_on c xs) @ ys)") auto
  show ?case
  proof (cases "x = c")
    case True
    then show ?thesis using Cons.IH by simp
  next
    case False
    show ?thesis
    proof (cases "ls = []")
      case True
      then show ?thesis using False Cons.IH s s' by simp
    next
      case nonempty: False
      then show ?thesis using False Cons.IH s s' by simp
    qed
  qed
qed

lemma parse_lines_append:
  "parse_lines (xs @ ys) cur = parse_lines xs cur @ parse_lines ys (pending_event xs cur)"
  by (induction xs cur rule: parse_lines.induct) (simp_all add: Let_def)

text \<open>
  Feeding \<open>a\<close> and then \<open>b\<close> gives the frames of \<open>a @ b\<close> fed at once, and the same
  buffer, whenever no frame is in progress at the end of the complete lines of \<open>a\<close>:
  when \<open>a\<close> ends inside the first line of a frame, or right after a blank line. In
  general the second call starts from an empty frame where the single call goes on with
  the frame in progress.
\<close>

lemma parse_split:
  "parse_chunks [a, b] buffer =
     parse_lines (butlast (split_on newline (buffer @ a))) empty_event @
     parse_lines (butlast (split_on newline (last (split_on newline (buffer @ a)) @ b))) empty_event"
  "fst (parse (a @ b) buffer) =
     parse_lines (butlast (split_on newline (buffer @ a))) empty_event @
     parse_lines (butlast (split_on newline (last (split_on newline (buffer @ a)) @ b)))
       (pending_event (butlast (split_on newline (buffer @ a))) empty_event)"
  "snd (parse b (snd (parse a buffer))) = snd (parse (a @ b) buffer)"
proof -
  let ?L1 = "butlast (split_on newline (buffer @ a))"
  let ?S = "split_on newline (last (split_on newline (buffer @ a)) @ b)"
  have sp: "split_on newline (buffer @ a @ b) = ?L1 @ ?S"
    using split_on_append [of newline "buffer @ a" b] by simp
  show "parse_chunks [a, b] buffer = parse_lines ?L1 empty_event @ parse_lines (butlast ?S) empty_event"
    by (simp add: parse_def Let_def)
  show "fst (parse (a @ b) buffer) =
     parse_lines ?L1 empty_event @ parse_lines (butlast ?S) (pending_event ?L1 empty_event)"
    by (simp add: parse_def Let_def sp butlast_append parse_lines_append)
  show "snd (parse b (snd (parse a buffer))) = snd (parse (a @ b) buffer)"
    by (simp add: parse_def Let_def sp)
qed

lemma parse_split_harmless:
  assumes "pending_event (butlast (split_on newline (buffer @ a))) empty_event = empty_event"
  shows "parse_chunks [a, b] buffer = fst (parse (a @ b) buffer)"
  unfolding parse_split(1,2) using assms by simp

section \<open>C2: frames split across chunks\<close>

text \<open>
  C2. The claim asks that every split of the input gives the frames of the unsplit
  input. The buffer carries a partial line from one \<open>parse\<close> call to the next, but the
  frame in progress is a local of the call. So a split between the \<open>data\<close> line and the
  blank line that ends the frame loses the frame, and a split after an \<open>id\<close> line loses
  the id, while a split inside a line is harmless.
\<close>

theorem parse_loses_frame_split_between_lines:
  "parse_chunks [''data: x\<newline>\<newline>''] []
     = [\<lparr>se_data = ''x'', se_event = None, se_id = None, se_retry = None\<rparr>] \<and>
   parse_chunks [''data: x\<newline>'', ''\<newline>''] [] = [] \<and>
   parse_chunks [''id: 7\<newline>data: x\<newline>\<newline>''] []
     = [\<lparr>se_data = ''x'', se_event = None, se_id = Some ''7'', se_retry = None\<rparr>] \<and>
   parse_chunks [''id: 7\<newline>da'', ''ta: x\<newline>\<newline>''] []
     = [\<lparr>se_data = ''x'', se_event = None, se_id = None, se_retry = None\<rparr>] \<and>
   parse_chunks [''da'', ''ta: x\<newline>\<newline>''] []
     = [\<lparr>se_data = ''x'', se_event = None, se_id = None, se_retry = None\<rparr>]"
  by (simp add: parser_eval)

declare sp_next.simps [simp del]

lemmas stream_eval = sp_next.simps finally_block_def sp_return_def sp_abort_def processStream_def
  example_source_def example_stream_def frame_of_def parser_eval

lemma sp_next_token:
  "sp_next (s\<lparr>sp_abortController := t\<rparr>) =
     (fst (sp_next s), (snd (sp_next s))\<lparr>sp_abortController := t\<rparr>)"
proof (induction s rule: sp_next.induct)
  case (1 s)
  show ?case
  proof (cases "sp_state s = Completed")
    case True
    then show ?thesis by (simp add: sp_next.simps [of s] sp_next.simps [of "s\<lparr>sp_abortController := t\<rparr>"])
  next
    case active: False
    show ?thesis
    proof (cases "sp_pending s")
      case (Cons ev rest)
      then show ?thesis
        using active
        by (simp add: sp_next.simps [of s] sp_next.simps [of "s\<lparr>sp_abortController := t\<rparr>"]
            finally_block_def)
    next
      case Nil
      show ?thesis
      proof (cases "sp_source s")
        case Nil
        then show ?thesis
          using active \<open>sp_pending s = []\<close>
          by (simp add: sp_next.simps [of s] sp_next.simps [of "s\<lparr>sp_abortController := t\<rparr>"]
              finally_block_def)
      next
        case (Cons rd src)
        show ?thesis
        proof (cases rd)
          case (ReadFails e)
          then show ?thesis
            using active \<open>sp_pending s = []\<close> Cons
            by (simp add: sp_next.simps [of s] sp_next.simps [of "s\<lparr>sp_abortController := t\<rparr>"]
                finally_block_def)
        next
          case (Data chunk)
          let ?s' = "s\<lparr>sp_source := src, sp_reads := sp_reads s + 1,
                          sp_buffer := snd (parse chunk (sp_buffer s)),
                          sp_pending := fst (parse chunk (sp_buffer s))\<rparr>"
          have IH: "sp_next (?s'\<lparr>sp_abortController := t\<rparr>) =
              (fst (sp_next ?s'), (snd (sp_next ?s'))\<lparr>sp_abortController := t\<rparr>)"
            using "1.IH" [OF active \<open>sp_pending s = []\<close> Cons Data] .
          have a: "sp_next s = sp_next ?s'"
            using active \<open>sp_pending s = []\<close> Cons Data by (simp add: sp_next.simps [of s])
          have eq: "s\<lparr>sp_abortController := t, sp_source := src, sp_reads := sp_reads s + 1,
                          sp_buffer := snd (parse chunk (sp_buffer s)),
                          sp_pending := fst (parse chunk (sp_buffer s))\<rparr> = ?s'\<lparr>sp_abortController := t\<rparr>"
            by (cases s) simp
          have "sp_next (s\<lparr>sp_abortController := t\<rparr>) =
                sp_next (s\<lparr>sp_abortController := t, sp_source := src, sp_reads := sp_reads s + 1,
                          sp_buffer := snd (parse chunk (sp_buffer s)),
                          sp_pending := fst (parse chunk (sp_buffer s))\<rparr>)"
            using active \<open>sp_pending s = []\<close> Cons Data
            by (simp add: sp_next.simps [of "s\<lparr>sp_abortController := t\<rparr>"])
          then have b: "sp_next (s\<lparr>sp_abortController := t\<rparr>) = sp_next (?s'\<lparr>sp_abortController := t\<rparr>)"
            by (simp only: eq)
          show ?thesis by (simp only: a b IH)
        qed
      qed
    qed
  qed
qed

lemma sp_next_exit:
  "sp_state s = Active \<Longrightarrow> fst (sp_next s) = Done \<or> fst (sp_next s) = Thrown e \<Longrightarrow>
   \<not> sp_locked (snd (sp_next s)) \<and> sp_buffer (snd (sp_next s)) = [] \<and>
   sp_state (snd (sp_next s)) = Completed"
proof (induction s rule: sp_next.induct)
  case (1 s)
  show ?case
  proof (cases "sp_pending s")
    case (Cons ev rest)
    then show ?thesis
      using "1.prems" by (auto simp: sp_next.simps [of s] finally_block_def split: if_splits)
  next
    case Nil
    show ?thesis
    proof (cases "sp_source s")
      case Nil
      then show ?thesis
        using "1.prems" \<open>sp_pending s = []\<close>
        by (auto simp: sp_next.simps [of s] finally_block_def)
    next
      case (Cons rd src)
      show ?thesis
      proof (cases rd)
        case (ReadFails e')
        then show ?thesis
          using "1.prems" \<open>sp_pending s = []\<close> Cons
          by (auto simp: sp_next.simps [of s] finally_block_def)
      next
        case (Data chunk)
        let ?s' = "s\<lparr>sp_source := src, sp_reads := sp_reads s + 1,
                        sp_buffer := snd (parse chunk (sp_buffer s)),
                        sp_pending := fst (parse chunk (sp_buffer s))\<rparr>"
        have a: "sp_next s = sp_next ?s'"
          using "1.prems"(1) \<open>sp_pending s = []\<close> Cons Data by (simp add: sp_next.simps [of s])
        have act: "sp_state s \<noteq> Completed" using "1.prems"(1) by simp
        show ?thesis
          using "1.IH" [OF act \<open>sp_pending s = []\<close> Cons Data] "1.prems" by (simp add: a)
      qed
    qed
  qed
qed

lemma sp_next_yield:
  "fst (sp_next s) = Yield ev \<Longrightarrow>
   sp_locked (snd (sp_next s)) = sp_locked s \<and> sp_state (snd (sp_next s)) = Active"
proof (induction s rule: sp_next.induct)
  case (1 s)
  have act: "sp_state s \<noteq> Completed" using "1.prems" by (auto simp: sp_next.simps [of s])
  then have act': "sp_state s = Active" by (cases "sp_state s") auto
  show ?case
  proof (cases "sp_pending s")
    case (Cons ev' rest)
    then show ?thesis
      using "1.prems" act' by (auto simp: sp_next.simps [of s] finally_block_def split: if_splits)
  next
    case Nil
    show ?thesis
    proof (cases "sp_source s")
      case Nil
      then show ?thesis
        using "1.prems" \<open>sp_pending s = []\<close> act by (auto simp: sp_next.simps [of s])
    next
      case (Cons rd src)
      show ?thesis
      proof (cases rd)
        case (ReadFails e')
        then show ?thesis
          using "1.prems" \<open>sp_pending s = []\<close> Cons act by (auto simp: sp_next.simps [of s])
      next
        case (Data chunk)
        let ?s' = "s\<lparr>sp_source := src, sp_reads := sp_reads s + 1,
                        sp_buffer := snd (parse chunk (sp_buffer s)),
                        sp_pending := fst (parse chunk (sp_buffer s))\<rparr>"
        have a: "sp_next s = sp_next ?s'"
          using act \<open>sp_pending s = []\<close> Cons Data by (simp add: sp_next.simps [of s])
        show ?thesis
          using "1.IH" [OF act \<open>sp_pending s = []\<close> Cons Data] "1.prems" by (simp add: a)
      qed
    qed
  qed
qed

section \<open>C6: the read loop and the cancellation token\<close>

text \<open>
  C6 as stated fails: the read loop has no check of the token. On the example body, after
  the first frame the token is signaled; the next pull still reads two more chunks to
  yield the second frame, and the reader stays locked.
\<close>

theorem read_loop_ignores_token_counterexample:
  "processStream (Some False) (Some example_source) = Inr example_stream \<and>
   fst (sp_next example_stream) = Yield (frame_of ''a'') \<and>
   sp_reads (snd (sp_next example_stream)) = 1 \<and>
   sp_abortController (sp_abort (snd (sp_next example_stream))) = Some True \<and>
   fst (sp_next (sp_abort (snd (sp_next example_stream)))) = Yield (frame_of ''b'') \<and>
   sp_reads (snd (sp_next (sp_abort (snd (sp_next example_stream))))) = 3 \<and>
   sp_locked (snd (sp_next (sp_abort (snd (sp_next example_stream)))))"
  by (simp add: stream_eval)

text \<open>
  C6, amended. The read loop never looks at the token: a pull gives the same result and
  makes the same reads whatever the token says. The loop stops, releases the reader and
  resets the parser on each of its exits: the end of the stream, the \<open>[DONE]\<close> sentinel and
  a failed read (a pull that yields nothing), and the consumer's \<open>return\<close>. The runner is
  such a consumer: at the first frame it receives once the token is signaled, it stops
  pulling. A pull that yields keeps the reader locked.
\<close>

theorem read_loop_exits_release_reader:
  "sp_next (s\<lparr>sp_abortController := t\<rparr>) =
     (fst (sp_next s), (snd (sp_next s))\<lparr>sp_abortController := t\<rparr>) \<and>
   (sp_state s = Active \<longrightarrow> (\<forall>ev. fst (sp_next s) \<noteq> Yield ev) \<longrightarrow>
      \<not> sp_locked (snd (sp_next s)) \<and> sp_buffer (snd (sp_next s)) = [] \<and>
      sp_state (snd (sp_next s)) = Completed) \<and>
   (sp_state s = Active \<longrightarrow>
      \<not> sp_locked (sp_return s) \<and> sp_buffer (sp_return s) = [] \<and>
      sp_state (sp_return s) = Completed) \<and>
   (fst (sp_next s) = Yield ev \<longrightarrow> sp_locked (snd (sp_next s)) = sp_locked s) \<and>
   (running r \<and> aborted r \<longrightarrow> \<not> running (step react (Frame p) r))"
proof (intro conjI impI)
  show "sp_next (s\<lparr>sp_abortController := t\<rparr>) =
     (fst (sp_next s), (snd (sp_next s))\<lparr>sp_abortController := t\<rparr>)"
    by (rule sp_next_token)
next
  assume act: "sp_state s = Active" and ny: "\<forall>ev. fst (sp_next s) \<noteq> Yield ev"
  then obtain e where "fst (sp_next s) = Done \<or> fst (sp_next s) = Thrown e"
    by (cases "fst (sp_next s)") auto
  then have "\<not> sp_locked (snd (sp_next s)) \<and> sp_buffer (snd (sp_next s)) = [] \<and>
      sp_state (snd (sp_next s)) = Completed"
    using act by (intro sp_next_exit)
  then show "\<not> sp_locked (snd (sp_next s))" "sp_buffer (snd (sp_next s)) = []"
      "sp_state (snd (sp_next s)) = Completed"
    by simp_all
next
  assume "sp_state s = Active"
  then show "\<not> sp_locked (sp_return s)" "sp_buffer (sp_return s) = []"
      "sp_state (sp_return s) = Completed"
    by (simp_all add: sp_return_def finally_block_def)
next
  assume "fst (sp_next s) = Yield ev"
  then show "sp_locked (snd (sp_next s)) = sp_locked s"
    using sp_next_yield by blast
next
  assume "running r \<and> aborted r"
  then show "\<not> running (step react (Frame p) r)"
    by (simp add: step_def)
qed

theorem read_loop_exits_release_reader_witness:
  "fst (sp_next (snd (sp_next (snd (sp_next (snd (sp_next example_stream))))))) = Done \<and>
   \<not> sp_locked (snd (sp_next (snd (sp_next (snd (sp_next (snd (sp_next example_stream)))))))) \<and>
   \<not> sp_locked (sp_return (snd (sp_next example_stream))) \<and>
   sp_locked (snd (sp_next example_stream)) \<and>
   \<not> running (step quiet (Frame (content_frame ''Hello'' None)) (abort new_runner))"
  using read_loop_exits_release_reader
    [where s = "snd (sp_next (snd (sp_next (snd (sp_next example_stream)))))" and t = "Some True"
       and ev = "frame_of ''a''" and r = "abort new_runner" and react = quiet
       and p = "content_frame ''Hello'' None"]
    read_loop_exits_release_reader
    [where s = "snd (sp_next example_stream)" and t = "Some True"
       and ev = "frame_of ''a''" and r = "abort new_runner" and react = quiet
       and p = "content_frame ''Hello'' None"]
    read_loop_exits_release_reader
    [where s = example_stream and t = "Some True"
       and ev = "frame_of ''a''" and r = "abort new_runner" and react = quiet
       and p = "content_frame ''Hello'' None"]
  by (simp add: stream_eval runner_eval)

section \<open>Iterating over a Set of handlers\<close>


lemma strike_simps [simp]:
  "strike gone [] = []"
  "strike gone (None # entries) = None # strike gone entries"
  "strike gone (Some h # entries) = (if h \<in> set gone then None else Some h) # strike gone entries"
  by (simp_all add: strike_def)

lemma length_strike [simp]: "length (strike gone entries) = length entries"
  by (simp add: strike_def)

lemma strike_Nil [simp]: "strike [] entries = entries"
  by (induction entries rule: live.induct) simp_all



lemma set_delete_strike: "set_delete h entries = strike [h] entries"
  by (induction entries rule: live.induct) (simp_all add: set_delete_def)


lemma live_strike: "live (strike gone entries) = filter (\<lambda>h. h \<notin> set gone) (live entries)"
  by (induction entries rule: live.induct) simp_all






lemma iterating_log [simp]:
  "iterating ev a (em\<lparr>em_log := l\<rparr>) = iterating ev a em"
  "iterating ev a (em\<lparr>em_console := c\<rparr>) = iterating ev a em"
  by (simp_all add: iterating_def split: option.splits)







section \<open>Well-formed emitters\<close>

text \<open>The emitters that the public methods build are well-formed.\<close>

lemma wf_new_emitter: "wf_emitter new_emitter"
  by (simp add: wf_emitter_def new_emitter_def)

lemma live_append [simp]: "live (xs @ ys) = live xs @ live ys"
  by (induction xs rule: live.induct) simp_all

lemma set_live: "h \<in> set (live entries) \<longleftrightarrow> Some h \<in> set entries"
  by (induction entries rule: live.induct) auto

lemma distinct_set_add: "distinct (live entries) \<Longrightarrow> distinct (live (set_add h entries))"
  by (simp add: set_add_def set_live)

lemma distinct_set_delete: "distinct (live entries) \<Longrightarrow> distinct (live (set_delete h entries))"
  by (simp add: set_delete_strike live_strike)

lemma wf_heap_update:
  assumes "\<forall>entries \<in> set heap. distinct (live entries)" and "distinct (live new)"
  shows "\<forall>entries \<in> set (heap[a := new]). distinct (live entries)"
  using assms by (metis insertE set_update_subset_insert subsetD)

lemma wf_on: "wf_emitter em \<Longrightarrow> wf_emitter (on e h em)"
proof (cases "map_of (em_events em) e")
  case None
  assume wf: "wf_emitter em"
  have fresh: "length (em_heap em) \<notin> snd ` set (em_events em)"
    using wf by (auto simp: wf_emitter_def)
  have m: "map_of (em_events em @ [(e, length (em_heap em))]) e = Some (length (em_heap em))"
    using None by (simp add: map_add_def)
  have "on e h em = em\<lparr>em_events := em_events em @ [(e, length (em_heap em))],
                        em_heap := em_heap em @ [set_add h []]\<rparr>"
    using None m by (simp add: on_def Let_def)
  moreover have "distinct (map snd (em_events em @ [(e, length (em_heap em))]))"
    using wf fresh by (simp add: wf_emitter_def)
  moreover have "\<forall>(k, a) \<in> set (em_events em @ [(e, length (em_heap em))]).
      a < length (em_heap em @ [set_add h []])"
    using wf by (auto simp: wf_emitter_def)
  moreover have "\<forall>entries \<in> set (em_heap em @ [set_add h []]). distinct (live entries)"
    using wf by (auto simp: wf_emitter_def set_add_def)
  ultimately show ?thesis by (simp add: wf_emitter_def)
next
  case (Some a)
  assume wf: "wf_emitter em"
  have "(e, a) \<in> set (em_events em)" using Some by (rule map_of_SomeD)
  then have a: "a < length (em_heap em)" using wf by (auto simp: wf_emitter_def)
  have "on e h em = em\<lparr>em_heap := (em_heap em)[a := set_add h (em_heap em ! a)]\<rparr>"
    using Some by (simp add: on_def)
  moreover have "\<forall>entries \<in> set ((em_heap em)[a := set_add h (em_heap em ! a)]). distinct (live entries)"
    using wf a by (intro wf_heap_update distinct_set_add) (simp_all add: wf_emitter_def)
  ultimately show ?thesis using wf by (simp add: wf_emitter_def)
qed

lemma wf_filter_events:
  "wf_emitter em \<Longrightarrow> wf_emitter (em\<lparr>em_events := filter P (em_events em)\<rparr>)"
  by (auto simp: wf_emitter_def distinct_map_filter)

lemma wf_off: "wf_emitter em \<Longrightarrow> wf_emitter (off e h em)"
proof (cases "map_of (em_events em) e")
  case None
  then show "wf_emitter em \<Longrightarrow> ?thesis" by (simp add: off_def)
next
  case (Some a)
  assume wf: "wf_emitter em"
  have "(e, a) \<in> set (em_events em)" using Some by (rule map_of_SomeD)
  then have a: "a < length (em_heap em)" using wf by (auto simp: wf_emitter_def)
  define em1 where "em1 = em\<lparr>em_heap := (em_heap em)[a := set_delete h (em_heap em ! a)]\<rparr>"
  have "\<forall>entries \<in> set ((em_heap em)[a := set_delete h (em_heap em ! a)]). distinct (live entries)"
    using wf a by (intro wf_heap_update distinct_set_delete) (simp_all add: wf_emitter_def)
  then have wf1: "wf_emitter em1" using wf by (simp add: wf_emitter_def em1_def)
  have "off e h em = em1 \<or> off e h em = em1\<lparr>em_events := filter (\<lambda>(k, _). k \<noteq> e) (em_events em1)\<rparr>"
    using Some by (simp add: off_def em1_def Let_def)
  then show ?thesis using wf1 wf_filter_events by auto
qed

lemma wf_once: "wf_emitter em \<Longrightarrow> wf_emitter (once e h em)"
proof -
  assume "wf_emitter em"
  then have "wf_emitter (em\<lparr>em_closures := em_closures em + 1\<rparr>)" by (simp add: wf_emitter_def)
  then show ?thesis unfolding once_def by (rule wf_on)
qed

lemma wf_removeAllListeners: "wf_emitter em \<Longrightarrow> wf_emitter (removeAllListeners e em)"
proof (cases "truthy e")
  case True
  assume "wf_emitter em"
  then show ?thesis using True wf_filter_events by (simp add: removeAllListeners_def)
next
  case False
  assume "wf_emitter em"
  then show ?thesis using False by (simp add: removeAllListeners_def wf_emitter_def)
qed

lemma wf_act: "wf_emitter em \<Longrightarrow> wf_emitter (act x em)"
  by (cases x) (simp_all add: wf_on wf_off wf_once wf_removeAllListeners)

lemma wf_reachable: "wf_emitter (foldl (\<lambda>em x. act x em) new_emitter acts)"
proof (induction acts rule: rev_induct)
  case Nil show ?case by (simp add: wf_new_emitter)
next
  case (snoc x acts) then show ?case by (simp add: wf_act)
qed

section \<open>The listeners of done() on the emitter\<close>

text \<open>
  What \<open>notify\<close> assumes of the listeners of \<open>done()\<close>, checked on the emitter: the
  first \<open>end\<close> invokes the wrapper of \<open>onEnd\<close> and removes it, a second \<open>end\<close> finds no
  handler, and \<open>cleanup\<close> removes nothing (it names the functions, not their wrappers),
  so that the wrappers for \<open>error\<close> and \<open>abort\<close> stay registered.
\<close>

lemmas emitter_eval = em_emit_def on_def off_def once_def new_emitter_def set_add_def
  set_delete_def set_size_def emit_loop.simps listeners_def listenerCount_def Let_def

lemma done_listeners_one_shot:
  "listeners ''end'' done_listeners = [OnceWrapper 0 ''end'' (Fn 10)] \<and>
   map_option (em_log \<circ> snd) (em_emit done_code ''end'' () done_listeners)
     = Some [OnceWrapper 0 ''end'' (Fn 10)] \<and>
   map_option (listeners ''end'' \<circ> snd) (em_emit done_code ''end'' () done_listeners) = Some [] \<and>
   map_option (listeners ''error'' \<circ> snd) (em_emit done_code ''end'' () done_listeners)
     = Some [OnceWrapper 1 ''error'' (Fn 11)] \<and>
   map_option (listeners ''abort'' \<circ> snd) (em_emit done_code ''end'' () done_listeners)
     = Some [OnceWrapper 2 ''abort'' (Fn 12)] \<and>
   map_option fst (em_emit done_code ''end'' ()
       (snd (the (em_emit done_code ''end'' () done_listeners)))) = Some False"
  by (simp add: emitter_eval done_code_def done_listeners_def)

section \<open>C7: the handlers that emit invokes\<close>




end
